theory Spec2Isabelle
  imports Main
begin

section \<open>Data model\<close>

text \<open>
  Package names are Python strings. The exceptions that the modelled code can raise are
  values of one datatype; a function that may raise returns \<open>error + 'a\<close>.
\<close>

type_synonym name = string

datatype error =
    NetworkXError
  | NetworkXUnfeasible
  | KeyError
  | ValueError
  | AttributeError
  | TypeError
  | NameError
  | CalledProcessError
  | KeyboardInterrupt

text \<open>
  \<open>describe_meta\<close> (build2.py, lines 100-113) returns the dictionary stored under the
  node attribute \<open>meta\<close>; \<open>construct_graph\<close> (line 165) stores \<open>meta\<close>, \<open>recipe\<close> and
  \<open>dirty\<close> for a node that has a recipe. A node that only occurs as a dependency
  (created by \<open>add_edge\<close>, line 167) has the empty attribute dictionary: \<open>None\<close> below.
\<close>

record meta_info =
  build :: int
  depends :: "(name \<times> string) list"
  version :: string

record node_data =
  meta :: meta_info
  recipe :: string
  dirty_attr :: bool

text \<open>
  A \<open>networkx.DiGraph\<close>: the keys of \<open>G.node\<close> (equally of \<open>G.adj\<close>) in their iteration
  order, the keys of \<open>G.adj[u]\<close> in their iteration order, and the attribute dictionary of
  every node. The iteration order of a Python dictionary or set is not fixed by the
  language; it is data of the model, and every theorem below holds for every order.
\<close>

record digraph =
  nodes :: "name list"
  adj :: "name \<Rightarrow> name list"
  node :: "name \<Rightarrow> node_data option"

text \<open>\<open>G.edges_iter(p)\<close> for a node \<open>p\<close>: the edges leaving \<open>p\<close>; \<open>G.edges()\<close>: all edges.\<close>

definition edges_iter :: "digraph \<Rightarrow> name \<Rightarrow> (name \<times> name) list" where
  "edges_iter g p = map (Pair p) (adj g p)"

definition edges :: "digraph \<Rightarrow> (name \<times> name) set" where
  "edges g = set (concat (map (edges_iter g) (nodes g)))"

text \<open>
  What \<open>networkx\<close> maintains by construction: a node is stored once, and both ends of every
  edge are nodes (\<open>add_edge\<close> adds them).
\<close>

definition wf_digraph :: "digraph \<Rightarrow> bool" where
  "wf_digraph g \<longleftrightarrow>
     distinct (nodes g) \<and> list_all (\<lambda>u. list_all (\<lambda>v. v \<in> set (nodes g)) (adj g u)) (nodes g)"

text \<open>A node is buildable iff it carries metadata (\<open>g.node[pkg].get('meta')\<close>, line 261).\<close>

definition buildable :: "digraph \<Rightarrow> name \<Rightarrow> bool" where
  "buildable g n \<longleftrightarrow> node g n \<noteq> None"

text \<open>
  Python's \<open>xs.index(x)\<close>: the position of the first occurrence, \<open>ValueError\<close> when there
  is none. \<open>before order a b\<close>: both names occur in \<open>order\<close>, and \<open>a\<close> at a strictly smaller
  index than \<open>b\<close>.
\<close>

definition pos :: "name list \<Rightarrow> name \<Rightarrow> nat" where
  "pos xs x = length (takeWhile (\<lambda>y. y \<noteq> x) xs)"

definition index :: "name list \<Rightarrow> name \<Rightarrow> error + nat" where
  "index xs x = (if x \<in> set xs then Inr (pos xs x) else Inl ValueError)"

definition before :: "name list \<Rightarrow> name \<Rightarrow> name \<Rightarrow> bool" where
  "before order a b \<longleftrightarrow>
     (case (index order a, index order b) of (Inr i, Inr j) \<Rightarrow> i < j | _ \<Rightarrow> False)"

section \<open>The graph library operations the program calls\<close>

text \<open>
  The program is written against networkx 1.x (\<open>nodes_iter\<close>, \<open>edges_iter\<close>,
  \<open>degree_iter\<close>, \<open>topological_sort(g, reverse=True)\<close> returning a list). The library is not
  part of the repository; the operations used by build2.py are modelled here after the
  library's own code, so that the program's functions can be run on concrete graphs.
  Python sets of names are lists without repetition.
\<close>

definition set_add :: "name \<Rightarrow> name list \<Rightarrow> name list" where
  "set_add x xs = (if x \<in> set xs then xs else xs @ [x])"

definition set_update :: "name list \<Rightarrow> name list \<Rightarrow> name list" where
  "set_update xs ys = fold set_add ys xs"

text \<open>\<open>G.successors(n)\<close> raises \<open>NetworkXError\<close> for a name that is not a node.\<close>

definition successors :: "digraph \<Rightarrow> name \<Rightarrow> error + name list" where
  "successors g n = (if n \<in> set (nodes g) then Inr (adj g n) else Inl NetworkXError)"

text \<open>
  \<open>G.subgraph(nbunch)\<close>: the names of \<open>nbunch\<close> that are nodes of \<open>G\<close> (others are skipped
  silently), with the edges of \<open>G\<close> between them and the attribute dictionaries of \<open>G\<close>.
\<close>

definition subgraph :: "digraph \<Rightarrow> name list \<Rightarrow> digraph" where
  "subgraph g nbunch =
     (let bunch = remdups (filter (\<lambda>n. n \<in> set (nodes g)) nbunch)
      in \<lparr> nodes = bunch,
           adj = (\<lambda>u. if u \<in> set bunch then filter (\<lambda>v. v \<in> set bunch) (adj g u) else []),
           node = (\<lambda>n. if n \<in> set bunch then node g n else None) \<rparr>)"

definition add_node :: "name \<Rightarrow> digraph \<Rightarrow> digraph" where
  "add_node n g =
     (if n \<in> set (nodes g) then g
      else g\<lparr> nodes := nodes g @ [n], adj := (adj g)(n := []), node := (node g)(n := None) \<rparr>)"

definition add_edge :: "name \<Rightarrow> name \<Rightarrow> digraph \<Rightarrow> digraph" where
  "add_edge u v g =
     (let g' = add_node v (add_node u g)
      in g'\<lparr> adj := (adj g')(u := set_add v (adj g' u)) \<rparr>)"

definition add_edges_from :: "(name \<times> name) list \<Rightarrow> digraph \<Rightarrow> digraph" where
  "add_edges_from ebunch g = fold (\<lambda>(u, v). add_edge u v) ebunch g"

subsection \<open>Topological sort\<close>

text \<open>
  \<open>networkx.topological_sort(G, nbunch=None, reverse=False)\<close> of networkx 1.x is a depth-first
  search with an explicit stack \<open>fringe\<close>, a set \<open>seen\<close> of the nodes whose successors have
  been looked at, a set \<open>explored\<close> of the finished nodes and the list \<open>order\<close> of the
  finished nodes in the order they finished:

  \<^verbatim>\<open>
    for v in nbunch:
        if v in explored: continue
        fringe = [v]
        while fringe:
            w = fringe[-1]
            if w in explored:
                fringe.pop(); continue
            seen.add(w)
            new_nodes = []
            for n in G[w]:
                if n not in explored:
                    if n in seen:
                        raise nx.NetworkXUnfeasible("Graph contains a cycle.")
                    new_nodes.append(n)
            if new_nodes:
                fringe.extend(new_nodes)
            else:
                explored.add(w); order.append(w); fringe.pop()
    return order if reverse else list(reversed(order))
  \<close>

  The stack is a list whose head is the top (\<open>fringe[-1]\<close>), so \<open>fringe.extend(new_nodes)\<close>
  is \<open>rev new_nodes @ fringe\<close>. The while loop is a partial function: the value \<open>None\<close>
  stands for a loop that never ends.
\<close>

partial_function (option) topo_while ::
  "(name \<Rightarrow> name list) \<Rightarrow> name list \<Rightarrow> name set \<Rightarrow> name set \<Rightarrow> name list
     \<Rightarrow> (error + name set \<times> name set \<times> name list) option"
where
  "topo_while G fringe seen explored order =
     (case fringe of
        [] \<Rightarrow> Some (Inr (seen, explored, order))
      | w # rest \<Rightarrow>
          if w \<in> explored then topo_while G rest seen explored order
          else if \<exists>n \<in> set (filter (\<lambda>n. n \<notin> explored) (G w)). n \<in> insert w seen
            then Some (Inl NetworkXUnfeasible)
          else if filter (\<lambda>n. n \<notin> explored) (G w) \<noteq> []
            then topo_while G (rev (filter (\<lambda>n. n \<notin> explored) (G w)) @ fringe)
                   (insert w seen) explored order
          else topo_while G rest (insert w seen) (insert w explored) (order @ [w]))"

declare topo_while.simps [code]

fun topo_for ::
  "(name \<Rightarrow> name list) \<Rightarrow> name list \<Rightarrow> name set \<Rightarrow> name set \<Rightarrow> name list
     \<Rightarrow> (error + name list) option"
where
  "topo_for G [] seen explored order = Some (Inr order)"
| "topo_for G (v # vs) seen explored order =
     (if v \<in> explored then topo_for G vs seen explored order
      else case topo_while G [v] seen explored order of
             None \<Rightarrow> None
           | Some (Inl e) \<Rightarrow> Some (Inl e)
           | Some (Inr (seen', explored', order')) \<Rightarrow> topo_for G vs seen' explored' order')"

definition topological_sort :: "digraph \<Rightarrow> bool \<Rightarrow> (error + name list) option" where
  "topological_sort g reverse =
     (case topo_for (adj g) (nodes g) {} {} [] of
        None \<Rightarrow> None
      | Some (Inl e) \<Rightarrow> Some (Inl e)
      | Some (Inr order) \<Rightarrow> Some (Inr (if reverse then order else rev order)))"

section \<open>The build-order planner\<close>

text \<open>
  \<open>build_order\<close> (build2.py, lines 223-254). The inner \<open>for p in currlevel\<close> loop (lines
  244-246) is \<open>expand_level\<close>, the \<open>while _level > 0\<close> loop (lines 242-248) is \<open>expand\<close>.
\<close>

fun expand_level ::
  "digraph \<Rightarrow> name list \<Rightarrow> name list \<Rightarrow> digraph \<Rightarrow> error + (name list \<times> digraph)"
where
  "expand_level graph [] newcurr tmp_global = Inr (newcurr, tmp_global)"
| "expand_level graph (p # ps) newcurr tmp_global =
     (case successors graph p of
        Inl e \<Rightarrow> Inl e
      | Inr ss \<Rightarrow>
          expand_level graph ps (set_update newcurr ss)
            (add_edges_from (edges_iter graph p) tmp_global))"

function expand :: "digraph \<Rightarrow> int \<Rightarrow> name list \<Rightarrow> digraph \<Rightarrow> error + digraph" where
  "expand graph level currlevel tmp_global =
     (if level > 0 then
        (case expand_level graph currlevel [] tmp_global of
           Inl e \<Rightarrow> Inl e
         | Inr (newcurr, tmp') \<Rightarrow> expand graph (level - 1) newcurr tmp')
      else Inr tmp_global)"
  by pat_completeness auto
termination
  by (relation "measure (\<lambda>(graph, level, currlevel, tmp_global). nat level)") auto

declare expand.simps [simp del]

text \<open>
  Lines 231-248: the temporary graph. \<open>packages is None\<close> is \<open>None\<close>; otherwise
  \<open>set(packages)\<close> removes repetitions.
\<close>

definition plan_subgraph :: "digraph \<Rightarrow> name list option \<Rightarrow> int \<Rightarrow> error + digraph" where
  "plan_subgraph graph packages level =
     (case packages of
        None \<Rightarrow> Inr (subgraph graph (nodes graph))
      | Some ps \<Rightarrow>
          (let packages' = remdups ps;
               tmp_global = subgraph graph packages'
           in if level > 0 then expand graph level packages' tmp_global
              else Inr tmp_global))"

text \<open>
  Lines 250-252: \<open>tmp_global.node[n] = graph.node[n]\<close> for every node of the temporary
  graph; the lookup raises \<open>KeyError\<close> for a name that is not a node of \<open>graph\<close>.
\<close>

definition copy_node_data :: "digraph \<Rightarrow> digraph \<Rightarrow> error + digraph" where
  "copy_node_data graph tmp_global =
     (if list_all (\<lambda>n. n \<in> set (nodes graph)) (nodes tmp_global)
      then Inr (tmp_global\<lparr> node := (\<lambda>n. if n \<in> set (nodes tmp_global) then node graph n
                                          else node tmp_global n) \<rparr>)
      else Inl KeyError)"

definition build_order ::
  "digraph \<Rightarrow> name list option \<Rightarrow> int \<Rightarrow> (error + digraph \<times> name list) option"
where
  "build_order graph packages level =
     (case plan_subgraph graph packages level of
        Inl e \<Rightarrow> Some (Inl e)
      | Inr tmp \<Rightarrow>
          (case copy_node_data graph tmp of
             Inl e \<Rightarrow> Some (Inl e)
           | Inr tmp_global \<Rightarrow>
               (case topological_sort tmp_global True of
                  None \<Rightarrow> None
                | Some (Inl e) \<Rightarrow> Some (Inl e)
                | Some (Inr order) \<Rightarrow> Some (Inr (tmp_global, order)))))"

section \<open>The group coalescer\<close>

text \<open>
  A dictionary from names to lists of names is an association list with distinct keys, in
  iteration order. \<open>getitem\<close> is \<open>d[key]\<close> on a plain \<open>dict\<close> (\<open>KeyError\<close> for a missing key),
  \<open>getitem_default\<close> is \<open>d[key]\<close> on the \<open>defaultdict(lambda: [])\<close> of line 185, \<open>setitem\<close>
  is \<open>d[key] = v\<close>.
\<close>

type_synonym groups = "(name \<times> name list) list"

definition getitem :: "groups \<Rightarrow> name \<Rightarrow> error + name list" where
  "getitem d key = (case map_of d key of None \<Rightarrow> Inl KeyError | Some v \<Rightarrow> Inr v)"

definition getitem_default :: "groups \<Rightarrow> name \<Rightarrow> name list" where
  "getitem_default d key = (case map_of d key of None \<Rightarrow> [] | Some v \<Rightarrow> v)"

fun setitem :: "groups \<Rightarrow> name \<Rightarrow> name list \<Rightarrow> groups" where
  "setitem [] key v = [(key, v)]"
| "setitem ((k, w) # d) key v = (if k = key then (key, v) # d else (k, w) # setitem d key v)"

text \<open>Every name of a mapping: its keys and the members of its lists.\<close>

definition names_of :: "groups \<Rightarrow> name list" where
  "names_of d = concat (map (\<lambda>(k, vs). k # vs) d)"

text \<open>
  Lines 194 and 198:
  \<open>coalesced[key] += [gi for gi in g if gi not in coalesced[key] and gi != key]\<close>.
  The comprehension is evaluated before the list is extended, so \<open>coalesced[key]\<close> is the
  old list for every \<open>gi\<close> of \<open>g\<close>.
\<close>

definition merge_group :: "name \<Rightarrow> name list \<Rightarrow> groups \<Rightarrow> groups" where
  "merge_group key g coalesced =
     setitem coalesced key
       (getitem_default coalesced key @
        filter (\<lambda>gi. gi \<notin> set (getitem_default coalesced key) \<and> gi \<noteq> key) g)"

text \<open>
  Line 192 compares \<open>g\<close>, a list, with \<open>key\<close>, a string: in Python a list never equals a
  string, so the \<open>continue\<close> of line 193 is never taken.
\<close>

definition list_equals_str :: "name list \<Rightarrow> name \<Rightarrow> bool" where
  "list_equals_str g key = False"

text \<open>Lines 191-194, the flush inside the loop, and lines 197-198, the flush after it.\<close>

definition flush_in_loop :: "name \<Rightarrow> name list list \<Rightarrow> groups \<Rightarrow> groups" where
  "flush_in_loop key grp coalesced =
     fold (\<lambda>g co. if list_equals_str g key then co else merge_group key g co) grp coalesced"

definition flush_after_loop :: "name \<Rightarrow> name list list \<Rightarrow> groups \<Rightarrow> groups" where
  "flush_after_loop key grp coalesced = fold (merge_group key) grp coalesced"

text \<open>
  Lines 188-195, over the sorted \<open>(key, count)\<close> pairs. The state is \<open>coalesced\<close>, \<open>group\<close>
  and the loop variable \<open>key\<close>, which is unbound (\<open>None\<close>) until the first iteration.
\<close>

fun coalesce_loop ::
  "groups \<Rightarrow> int \<Rightarrow> (name \<times> nat) list \<Rightarrow> groups \<Rightarrow> name list list \<Rightarrow> name option
     \<Rightarrow> error + (groups \<times> name list list \<times> name option)"
where
  "coalesce_loop hi_level_builds targetnum [] coalesced grp last_key =
     Inr (coalesced, grp, last_key)"
| "coalesce_loop hi_level_builds targetnum ((key, count) # rest) coalesced grp last_key =
     (case getitem hi_level_builds key of
        Inl e \<Rightarrow> Inl e
      | Inr v \<Rightarrow>
          (let grp' = grp @ [v @ [key]]
           in if int (sum_list (map length grp')) \<ge> targetnum
              then coalesce_loop hi_level_builds targetnum rest
                     (flush_in_loop key grp' coalesced) [] (Some key)
              else coalesce_loop hi_level_builds targetnum rest coalesced grp' (Some key)))"

text \<open>
  \<open>coalesce\<close> (lines 184-199). \<open>sorted(counts, key=lambda x: x[1])\<close> is a stable sort by
  the count, as \<open>sort_key\<close> is.
\<close>

definition coalesce :: "groups \<Rightarrow> int \<Rightarrow> error + groups" where
  "coalesce hi_level_builds targetnum =
     (let counts = map (\<lambda>(k, v). (k, length v)) hi_level_builds
      in case coalesce_loop hi_level_builds targetnum (sort_key snd counts) [] [] None of
           Inl e \<Rightarrow> Inl e
         | Inr (coalesced, grp, last_key) \<Rightarrow>
             if grp \<noteq> [] then
               (case last_key of
                  None \<Rightarrow> Inl NameError
                | Some key \<Rightarrow> Inr (flush_after_loop key grp coalesced))
             else Inr coalesced)"

section \<open>Graph construction and the dirty-node query\<close>

text \<open>
  \<open>construct_graph\<close> (build2.py, lines 138-169). The file system, the recipe parser and
  the version-control query are outside the program: the model takes the names of the
  immediate subdirectories, the parser as a function that gives the package name and the
  dictionary of \<open>describe_meta\<close> for a recipe directory (\<open>None\<close> when \<open>read_recipe\<close> or
  \<open>pkg.name()\<close> raises, which line 160 swallows), and the set of changed directories.
\<close>

record recipe =
  pkg_name :: name
  pkg_meta :: meta_info

definition startswith_dot :: "string \<Rightarrow> bool" where
  "startswith_dot x = (case x of [] \<Rightarrow> False | c # _ \<Rightarrow> c = CHR ''.'')"

definition path_join :: "string \<Rightarrow> string \<Rightarrow> string" where
  "path_join directory rd = directory @ ''/'' @ rd"

text \<open>\<open>g.add_node(name, meta=..., recipe=..., dirty=...)\<close>: creates the node or updates its
  attribute dictionary.\<close>

definition add_node_attrs :: "name \<Rightarrow> node_data \<Rightarrow> digraph \<Rightarrow> digraph" where
  "add_node_attrs n d g =
     (if n \<in> set (nodes g) then g\<lparr> node := (node g)(n := Some d) \<rparr>
      else g\<lparr> nodes := nodes g @ [n], adj := (adj g)(n := []), node := (node g)(n := Some d) \<rparr>)"

definition empty_graph :: digraph where
  "empty_graph = \<lparr> nodes = [], adj = (\<lambda>_. []), node = (\<lambda>_. None) \<rparr>"

definition construct_step ::
  "string \<Rightarrow> (string \<Rightarrow> recipe option) \<Rightarrow> string set \<Rightarrow> string \<Rightarrow> digraph \<Rightarrow> digraph"
where
  "construct_step directory read_recipe changed_recipes rd g =
     (let recipe_dir = path_join directory rd
      in case read_recipe recipe_dir of
           None \<Rightarrow> g
         | Some pkg \<Rightarrow>
             (let dirty' = (if rd \<in> changed_recipes then True else False);
                  g' = add_node_attrs (pkg_name pkg)
                         \<lparr> meta = pkg_meta pkg, recipe = recipe_dir, dirty_attr = dirty' \<rparr> g
              in fold (\<lambda>(k, d). add_edge (pkg_name pkg) k) (depends (pkg_meta pkg)) g'))"

definition construct_graph ::
  "string \<Rightarrow> string list \<Rightarrow> (string \<Rightarrow> recipe option) \<Rightarrow> string set \<Rightarrow> digraph"
where
  "construct_graph directory subdirs read_recipe changed_recipes =
     fold (construct_step directory read_recipe changed_recipes)
       (remdups (filter (\<lambda>x. \<not> startswith_dot x) subdirs)) empty_graph"

text \<open>
  \<open>dirty\<close> (lines 171-175) iterates over \<open>graph.node\<close>, that is over the node names, and
  calls \<open>getattr(n, 'dirty', False)\<close> on each name, a Python string. The attributes of a
  string are those of its type (Python 2.7, \<open>dir(str)\<close>); \<open>getattr\<close> returns the attribute
  when the type has it and the default otherwise. A value is a boolean or an attribute
  object of the string; only the boolean \<open>True\<close> equals \<open>True\<close>.
\<close>

datatype pyval = PyBool bool | PyAttribute string

definition str_attributes :: "string list" where
  "str_attributes =
     [''__add__'', ''__class__'', ''__contains__'', ''__delattr__'', ''__doc__'', ''__eq__'',
      ''__format__'', ''__ge__'', ''__getattribute__'', ''__getitem__'', ''__getnewargs__'',
      ''__getslice__'', ''__gt__'', ''__hash__'', ''__init__'', ''__le__'', ''__len__'',
      ''__lt__'', ''__mod__'', ''__mul__'', ''__ne__'', ''__new__'', ''__reduce__'',
      ''__reduce_ex__'', ''__repr__'', ''__rmod__'', ''__rmul__'', ''__setattr__'',
      ''__sizeof__'', ''__str__'', ''__subclasshook__'', ''_formatter_field_name_split'',
      ''_formatter_parser'', ''capitalize'', ''center'', ''count'', ''decode'', ''encode'',
      ''endswith'', ''expandtabs'', ''find'', ''format'', ''index'', ''isalnum'', ''isalpha'',
      ''isdigit'', ''islower'', ''isspace'', ''istitle'', ''isupper'', ''join'', ''ljust'',
      ''lower'', ''lstrip'', ''partition'', ''replace'', ''rfind'', ''rindex'', ''rjust'',
      ''rpartition'', ''rsplit'', ''rstrip'', ''split'', ''splitlines'', ''startswith'',
      ''strip'', ''swapcase'', ''title'', ''translate'', ''upper'', ''zfill'']"

definition getattr_str :: "name \<Rightarrow> string \<Rightarrow> pyval \<Rightarrow> pyval" where
  "getattr_str n attr dflt =
     (if attr \<in> set str_attributes then PyAttribute attr else dflt)"

definition dirty :: "digraph \<Rightarrow> name set" where
  "dirty graph =
     set (filter (\<lambda>n. getattr_str n ''dirty'' (PyBool False) = PyBool True) (nodes graph))"

section \<open>The build executor\<close>

text \<open>
  \<open>PopenWrapper\<close> (lines 21-78) runs the external command and polls it. What the command
  and the operating system do is outside the program: \<open>tool_run\<close> is what one
  invocation turns out to be, either the process exits and the wrapper holds what the
  polling loop recorded (each field is \<open>None\<close> until the loop body sets it; \<open>elapsed\<close> is in
  clock ticks), or the user interrupts it, and the wrapper kills the child and re-raises
  \<open>KeyboardInterrupt\<close> (lines 70-72). The wrapper stores the exit status in \<open>returncode\<close>;
  nothing in lines 34-72 inspects it or raises \<open>CalledProcessError\<close>.
\<close>

record popen_wrapper =
  elapsed :: "int option"
  rss :: "int option"
  vms :: "int option"
  returncode :: "int option"
  disk :: "int option"

datatype tool_run = Exited popen_wrapper | Interrupted

definition PopenWrapper :: "(string list \<Rightarrow> tool_run) \<Rightarrow> string list \<Rightarrow> error + popen_wrapper" where
  "PopenWrapper run_tool args =
     (case run_tool args of Exited p \<Rightarrow> Inr p | Interrupted \<Rightarrow> Inl KeyboardInterrupt)"

text \<open>Python's \<open>str.split()\<close>: the maximal runs of characters that are not whitespace.\<close>

definition is_space :: "char \<Rightarrow> bool" where
  "is_space c \<longleftrightarrow> c \<in> set [CHR '' '', CHR 0x09, CHR 0x0A, CHR 0x0B, CHR 0x0C, CHR 0x0D]"

fun split_from :: "string \<Rightarrow> string \<Rightarrow> string list" where
  "split_from cur [] = (if cur = [] then [] else [cur])"
| "split_from cur (c # cs) =
     (if is_space c then (if cur = [] then split_from [] cs else cur # split_from [] cs)
      else split_from (cur @ [c]) cs)"

definition split :: "string \<Rightarrow> string list" where
  "split s = split_from [] s"

text \<open>
  \<open>make_pkg\<close> (lines 288-301): \<open>None\<close> in a dry run, the wrapper otherwise. The handler
  of lines 298-301 re-raises a \<open>CalledProcessError\<close> of the body.
\<close>

definition make_pkg ::
  "(string list \<Rightarrow> tool_run) \<Rightarrow> bool \<Rightarrow> string \<Rightarrow> node_data \<Rightarrow> error + popen_wrapper option"
where
  "make_pkg run_tool dry extra_args package =
     (let path = recipe package
      in if \<not> dry then
           (case PopenWrapper run_tool ([''conda'', ''build'', ''-q''] @ split extra_args @ [path]) of
              Inl e \<Rightarrow> Inl e
            | Inr p \<Rightarrow> Inr (Some p))
         else Inr None)"

text \<open>
  What \<open>make_deps\<close> returns: the triple of line 285, or the \<open>failed\<close> set alone (line 280).
  \<open>build_times\<close> is a dictionary over the packages of \<open>order\<close>.
\<close>

type_synonym build_times = "(name \<times> popen_wrapper option) list"

datatype make_deps_result =
    Report "name list" "name list" build_times
  | FailedSet "name list"

fun set_build_time :: "build_times \<Rightarrow> name \<Rightarrow> popen_wrapper option \<Rightarrow> build_times" where
  "set_build_time [] pkg t = [(pkg, t)]"
| "set_build_time ((k, w) # bt) pkg t =
     (if k = pkg then (pkg, t) # bt else (k, w) # set_build_time bt pkg t)"

text \<open>
  The loop of lines 266-283 over the packages that remain, with the whole \<open>order\<close> (line
  270 tests every package of \<open>order\<close> against \<open>failed\<close>). \<open>mk\<close> is the call of \<open>make_pkg\<close> of
  line 277. \<open>g.node[pkg]['meta']\<close> (lines 272 and 289) raises \<open>KeyError\<close> for a node
  without metadata.
\<close>

fun make_deps_loop ::
  "(node_data \<Rightarrow> error + popen_wrapper option) \<Rightarrow> digraph \<Rightarrow> name list \<Rightarrow> name list
     \<Rightarrow> name list \<Rightarrow> build_times \<Rightarrow> error + make_deps_result"
where
  "make_deps_loop mk g order [] failed btimes =
     Inr (Report (filter (\<lambda>p. p \<notin> set failed) (remdups order)) failed btimes)"
| "make_deps_loop mk g order (pkg # rest) failed btimes =
     (case node g pkg of
        None \<Rightarrow> Inl KeyError
      | Some package \<Rightarrow>
          if list_ex (\<lambda>p. p \<in> set failed) order
          then make_deps_loop mk g order rest (set_add pkg failed) btimes
          else
            (case mk package of
               Inr build_time \<Rightarrow>
                 make_deps_loop mk g order rest failed (set_build_time btimes pkg build_time)
             | Inl KeyboardInterrupt \<Rightarrow> Inr (FailedSet failed)
             | Inl CalledProcessError \<Rightarrow> make_deps_loop mk g order rest (set_add pkg failed) btimes
             | Inl e \<Rightarrow> Inl e))"

text \<open>Lines 260-285: the run over the planned order, filtered to the buildable nodes.\<close>

definition make_deps_run ::
  "(node_data \<Rightarrow> error + popen_wrapper option) \<Rightarrow> digraph \<Rightarrow> name list \<Rightarrow> error + make_deps_result"
where
  "make_deps_run mk g order = make_deps_loop mk g order order [] (map (\<lambda>x. (x, None)) order)"

definition make_deps_with ::
  "(node_data \<Rightarrow> error + popen_wrapper option) \<Rightarrow> digraph \<Rightarrow> name list option \<Rightarrow> int
     \<Rightarrow> (error + make_deps_result) option"
where
  "make_deps_with mk graph package level =
     (case build_order graph package level of
        None \<Rightarrow> None
      | Some (Inl e) \<Rightarrow> Some (Inl e)
      | Some (Inr (g, order)) \<Rightarrow> Some (make_deps_run mk g (filter (buildable g) order)))"

text \<open>\<open>make_deps\<close> (lines 257-285) with the program's own \<open>make_pkg\<close>. The parameter
  \<open>autofail\<close> is not used by the body.\<close>

definition make_deps ::
  "(string list \<Rightarrow> tool_run) \<Rightarrow> digraph \<Rightarrow> name list option \<Rightarrow> bool \<Rightarrow> string \<Rightarrow> int \<Rightarrow> bool
     \<Rightarrow> (error + make_deps_result) option"
where
  "make_deps run_tool graph package dry extra_args level autofail =
     make_deps_with (make_pkg run_tool dry extra_args) graph package level"

text \<open>
  The build path of the main program (lines 505-540). \<open>success, fail, times = make_deps(...)\<close>
  unpacks an iterable of exactly three items, \<open>ValueError\<close> otherwise; when the set
  returned by line 280 has three names, \<open>times\<close> is a string and \<open>times.items()\<close> raises
  \<open>AttributeError\<close>. The statistics loop of lines 530-533 reads \<open>i.rss\<close>, \<open>i.vms\<close>, \<open>i.elapsed\<close>
  and \<open>i.disk\<close> of every value of \<open>times\<close>: \<open>AttributeError\<close> when the value is \<open>None\<close>,
  \<open>TypeError\<close> in \<open>e += i.elapsed\<close> when \<open>elapsed\<close> is \<open>None\<close>. The program ends with
  \<open>sys.exit(len(fail))\<close> or with the uncaught exception, for which the interpreter exits
  with status 1.
\<close>

fun stats_loop :: "build_times \<Rightarrow> error + unit" where
  "stats_loop [] = Inr ()"
| "stats_loop ((k, i) # rest) =
     (case i of
        None \<Rightarrow> Inl AttributeError
      | Some w \<Rightarrow> (case elapsed w of None \<Rightarrow> Inl TypeError | Some e \<Rightarrow> stats_loop rest))"

datatype program_end = SysExit int | Uncaught error

definition exit_status :: "program_end \<Rightarrow> int" where
  "exit_status t = (case t of SysExit n \<Rightarrow> n | Uncaught e \<Rightarrow> 1)"

definition summarize :: "error + make_deps_result \<Rightarrow> program_end" where
  "summarize r =
     (case r of
        Inl e \<Rightarrow> Uncaught e
      | Inr (FailedSet failed) \<Rightarrow>
          if length failed = 3 then Uncaught AttributeError else Uncaught ValueError
      | Inr (Report success fail btimes) \<Rightarrow>
          (case stats_loop btimes of
             Inl e \<Rightarrow> Uncaught e
           | Inr u \<Rightarrow> SysExit (int (length fail))))"

definition main_build ::
  "(string list \<Rightarrow> tool_run) \<Rightarrow> digraph \<Rightarrow> name list option \<Rightarrow> bool \<Rightarrow> string \<Rightarrow> int \<Rightarrow> bool
     \<Rightarrow> program_end option"
where
  "main_build run_tool g build' dry cbargs level autofail =
     map_option summarize (make_deps run_tool g build' dry cbargs level autofail)"

section \<open>Splitting the graph into groups\<close>

text \<open>
  \<open>successors_iter\<close> (build2.py, lines 177-182) calls itself for every successor and ends
  only when no path goes on; the first argument of the model bounds the depth of the
  recursion, and \<open>None\<close> is the value of a call that needs a deeper one. \<open>nodes\<close> is one
  set, shared by all calls and returned by each: \<open>nodes.add(s)\<close> is \<open>set_add\<close>, and the inner
  loop over \<open>tuple(successors_iter(g, s, nodes))\<close> adds the members of the returned set to the
  same set. \<open>successors_for\<close> is the loop of lines 178-181 over the successors that remain.
\<close>

fun successors_iter :: "nat \<Rightarrow> digraph \<Rightarrow> name \<Rightarrow> name list \<Rightarrow> (error + name list) option"
  and successors_for :: "nat \<Rightarrow> digraph \<Rightarrow> name list \<Rightarrow> name list \<Rightarrow> (error + name list) option"
where
  "successors_iter 0 g s nodes' = None"
| "successors_iter (Suc depth) g s nodes' =
     (case successors g s of
        Inl e \<Rightarrow> Some (Inl e)
      | Inr ss \<Rightarrow> successors_for depth g ss nodes')"
| "successors_for depth g [] nodes' = Some (Inr nodes')"
| "successors_for depth g (s # ss) nodes' =
     (case successors_iter depth g s (set_add s nodes') of
        None \<Rightarrow> None
      | Some (Inl e) \<Rightarrow> Some (Inl e)
      | Some (Inr returned) \<Rightarrow> successors_for depth g ss (set_update returned returned))"

text \<open>
  \<open>packages_covered\<close> (line 204) is a \<open>defaultdict\<close> of counters: \<open>packages_covered[s] += 1\<close>
  creates the key with the value 1 or increments it.
\<close>

fun increment :: "(name \<times> nat) list \<Rightarrow> name \<Rightarrow> (name \<times> nat) list" where
  "increment [] s = [(s, 1)]"
| "increment ((k, n) # d) s = (if k = s then (k, n + 1) # d else (k, n) # increment d s)"

text \<open>Line 215: \<open>[(s, toposort.index(s)) for s in succ]\<close>; \<open>index\<close> raises \<open>ValueError\<close> for a
  name that is not in the list.\<close>

fun topo_positions :: "name list \<Rightarrow> name list \<Rightarrow> error + (name \<times> nat) list" where
  "topo_positions toposort [] = Inr []"
| "topo_positions toposort (s # succ) =
     (case index toposort s of
        Inl e \<Rightarrow> Inl e
      | Inr i \<Rightarrow>
          (case topo_positions toposort succ of
             Inl e \<Rightarrow> Inl e
           | Inr rest \<Rightarrow> Inr ((s, i) # rest)))"

text \<open>
  The loop of lines 208-217 over the nodes in topological order. A node that an earlier
  closure covers is skipped; for every other node, its representative, the closure is
  stored in descending order of the topological index.
\<close>

fun hi_level_loop ::
  "nat \<Rightarrow> digraph \<Rightarrow> name list \<Rightarrow> name list \<Rightarrow> (name \<times> nat) list \<Rightarrow> groups
     \<Rightarrow> (error + groups) option"
where
  "hi_level_loop depth g toposort [] packages_covered hi_level_builds =
     Some (Inr hi_level_builds)"
| "hi_level_loop depth g toposort (hi_level # rest) packages_covered hi_level_builds =
     (if hi_level \<in> fst ` set packages_covered
      then hi_level_loop depth g toposort rest packages_covered hi_level_builds
      else
        (case successors_iter depth g hi_level [] of
           None \<Rightarrow> None
         | Some (Inl e) \<Rightarrow> Some (Inl e)
         | Some (Inr succ) \<Rightarrow>
             (case topo_positions toposort succ of
                Inl e \<Rightarrow> Some (Inl e)
              | Inr topo_order \<Rightarrow>
                  hi_level_loop depth g toposort rest
                    (increment (fold (\<lambda>s c. increment c s) succ packages_covered) hi_level)
                    (setitem hi_level_builds hi_level
                       (map fst (sort_key (\<lambda>x. - int (snd x)) topo_order))))))"

text \<open>
  Lines 202-217: the closure of every representative, before the closures are coalesced.
  Both calls of \<open>nx.topological_sort(g)\<close> (lines 203 and 208) give the same list.
\<close>

definition hi_level_closures :: "nat \<Rightarrow> digraph \<Rightarrow> (error + groups) option" where
  "hi_level_closures depth g =
     (case topological_sort g False of
        None \<Rightarrow> None
      | Some (Inl e) \<Rightarrow> Some (Inl e)
      | Some (Inr toposort) \<Rightarrow> hi_level_loop depth g toposort toposort [] [])"

text \<open>
  \<open>split_graph\<close> (lines 201-221) returns the coalesced mapping; it also writes the mapping
  to \<open>split_file\<close> as JSON, which is outside the model.
\<close>

definition split_graph :: "nat \<Rightarrow> digraph \<Rightarrow> int \<Rightarrow> (error + groups) option" where
  "split_graph depth g targetnum =
     (case hi_level_closures depth g of
        None \<Rightarrow> None
      | Some (Inl e) \<Rightarrow> Some (Inl e)
      | Some (Inr hi_level_builds) \<Rightarrow> Some (coalesce hi_level_builds targetnum))"

section \<open>Predicates used in the proofs\<close>

definition gedges :: "(name \<Rightarrow> name list) \<Rightarrow> name set \<Rightarrow> (name \<times> name) set" where
  "gedges G V = {(u, v). u \<in> V \<and> v \<in> set (G u)}"

definition deps_first :: "(name \<Rightarrow> name list) \<Rightarrow> name list \<Rightarrow> bool" where
  "deps_first G order \<longleftrightarrow>
     distinct order \<and> (\<forall>i < length order. set (G (order ! i)) \<subseteq> set (take i order))"

definition dfs_inv ::
  "(name \<Rightarrow> name list) \<Rightarrow> name set \<Rightarrow> name list \<Rightarrow> name set \<Rightarrow> name set \<Rightarrow> bool" where
  "dfs_inv G V fr seen ex \<longleftrightarrow>
     set fr \<subseteq> V \<and>
     (\<forall>w \<in> seen - ex. \<exists>above below.
        fr = above @ w # below \<and> w \<notin> set above \<and>
        (\<forall>v \<in> set (G w). v \<notin> ex \<longrightarrow> v \<in> set above) \<and>
        (\<forall>x \<in> set above. (w, x) \<in> (gedges G V)\<^sup>+))"

definition topo_inv :: "(name \<Rightarrow> name list) \<Rightarrow> name set \<Rightarrow> name set \<Rightarrow> name list \<Rightarrow> bool" where
  "topo_inv G V ex order \<longleftrightarrow> set order = ex \<and> ex \<subseteq> V \<and> deps_first G order"

definition dfs_post ::
  "(name \<Rightarrow> name list) \<Rightarrow> name set \<Rightarrow> name list \<Rightarrow> name set
     \<Rightarrow> (error + name set \<times> name set \<times> name list) \<Rightarrow> bool" where
  "dfs_post G V fr ex r \<longleftrightarrow>
     (case r of
        Inl e \<Rightarrow> e = NetworkXUnfeasible \<and> \<not> acyclic (gedges G V)
      | Inr (seen', ex', order') \<Rightarrow>
          topo_inv G V ex' order' \<and> set fr \<union> ex \<subseteq> ex' \<and> seen' \<subseteq> ex')"


definition sort_post :: "(name \<Rightarrow> name list) \<Rightarrow> name set \<Rightarrow> (error + name list) \<Rightarrow> bool" where
  "sort_post G V r \<longleftrightarrow>
     (case r of
        Inl e \<Rightarrow> e = NetworkXUnfeasible \<and> \<not> acyclic (gedges G V)
      | Inr order \<Rightarrow> deps_first G order \<and> set order \<subseteq> V)"

definition sub_inv :: "digraph \<Rightarrow> digraph \<Rightarrow> bool" where
  "sub_inv graph tmp \<longleftrightarrow>
     wf_digraph tmp \<and> set (nodes tmp) \<subseteq> set (nodes graph) \<and> edges tmp \<subseteq> edges graph"

definition closure_names :: "groups \<Rightarrow> name \<Rightarrow> name set" where
  "closure_names hi k = insert k (set (getitem_default hi k))"

text \<open>What one \<open>merge_group\<close> appends to the list \<open>acc\<close> of its key, and the list that a
  flush builds from \<open>acc\<close>.\<close>

definition merge_step :: "name \<Rightarrow> name list \<Rightarrow> name list \<Rightarrow> name list" where
  "merge_step key g acc = acc @ filter (\<lambda>gi. gi \<notin> set acc \<and> gi \<noteq> key) g"

definition merged :: "name \<Rightarrow> name list list \<Rightarrow> name list \<Rightarrow> name list" where
  "merged key grp acc = fold (merge_step key) grp acc"

text \<open>The nodes reachable from \<open>s\<close> along one or more edges; every closure of a mapping is
  such a set, without repetition.\<close>

definition reach :: "digraph \<Rightarrow> name \<Rightarrow> name set" where
  "reach g s = {v. (s, v) \<in> (edges g)\<^sup>+}"

definition closure_ok :: "digraph \<Rightarrow> groups \<Rightarrow> bool" where
  "closure_ok g hb \<longleftrightarrow> (\<forall>(k, vs) \<in> set hb. distinct vs \<and> set vs = reach g k)"

section \<open>Example inputs and the properties the claims use\<close>

text \<open>The attribute dictionary \<open>construct_graph\<close> stores for a recipe with the given
  build dependencies and recipe directory.\<close>

definition recipe_node :: "name list \<Rightarrow> string \<Rightarrow> node_data option" where
  "recipe_node deps path =
     Some \<lparr> meta = \<lparr> build = 0, depends = map (\<lambda>d. (d, [])) deps, version = ''1.0'' \<rparr>,
            recipe = path, dirty_attr = False \<rparr>"

text \<open>Three recipes: \<open>app\<close> requires \<open>liba\<close> and \<open>libb\<close>, \<open>libb\<close> requires \<open>liba\<close>.\<close>

definition graph_app :: digraph where
  "graph_app =
     \<lparr> nodes = [''app'', ''libb'', ''liba''],
       adj = (\<lambda>_. [])(''app'' := [''liba'', ''libb''], ''libb'' := [''liba'']),
       node = (\<lambda>_. None)(''app'' := recipe_node [''liba'', ''libb''] ''recipes/app'',
                          ''libb'' := recipe_node [''liba''] ''recipes/libb'',
                          ''liba'' := recipe_node [] ''recipes/liba'') \<rparr>"

text \<open>Three recipes with a cycle: \<open>a\<close> and \<open>b\<close> require each other, \<open>c\<close> requires \<open>a\<close>.\<close>

definition graph_cyclic :: digraph where
  "graph_cyclic =
     \<lparr> nodes = [''a'', ''b'', ''c''],
       adj = (\<lambda>_. [])(''a'' := [''b''], ''b'' := [''a''], ''c'' := [''a'']),
       node = (\<lambda>_. None)(''a'' := recipe_node [''b''] ''recipes/a'',
                          ''b'' := recipe_node [''a''] ''recipes/b'',
                          ''c'' := recipe_node [''a''] ''recipes/c'') \<rparr>"

text \<open>
  No list of the mapping repeats a name or contains its own key. The dependency closures
  that \<open>split_graph\<close> computes are of this kind.
\<close>

definition group_ok :: "groups \<Rightarrow> bool" where
  "group_ok d \<longleftrightarrow> list_all (\<lambda>(k, vs). distinct vs \<and> k \<notin> set vs) d"

text \<open>
  The partition property read over the whole output: every name of the input (key or
  closure member) occurs exactly once among the keys and list members of the output, and
  no name is repeated anywhere in the output.
\<close>

definition set_partition_of :: "groups \<Rightarrow> groups \<Rightarrow> bool" where
  "set_partition_of hi out \<longleftrightarrow>
     list_all (\<lambda>n. count_list (names_of out) n = 1) (names_of hi) \<and> distinct (names_of out)"

text \<open>The closure mapping of the scenario, and one with a shared dependency: the closures
  of two packages \<open>A\<close> and \<open>B\<close> that both require \<open>c\<close>.\<close>

definition closures_ab :: groups where
  "closures_ab = [(''A'', [''a1'', ''a2'']), (''B'', [''b1''])]"

definition closures_shared :: groups where
  "closures_shared = [(''A'', [''c'']), (''B'', [''c''])]"

text \<open>Three recipes without dependencies, in the iteration order \<open>A\<close>, \<open>B\<close>, \<open>C\<close>.\<close>

definition graph_three :: digraph where
  "graph_three =
     \<lparr> nodes = [''A'', ''B'', ''C''],
       adj = (\<lambda>_. []),
       node = (\<lambda>_. None)(''A'' := recipe_node [] ''recipes/A'',
                          ''B'' := recipe_node [] ''recipes/B'',
                          ''C'' := recipe_node [] ''recipes/C'') \<rparr>"

text \<open>
  External build tools: one whose process exits with a given status after the monitor has
  recorded one sample, one that exits with status 1 for the recipe at \<open>path\<close> (the last
  argument of the command line) and with status 0 for every other recipe, and one that is
  interrupted while it builds the recipe at \<open>path\<close>. \<open>fails_for path\<close> is a build step that raises
  \<open>CalledProcessError\<close> for the recipe at \<open>path\<close> and succeeds for every other recipe.
\<close>

definition measured :: "int \<Rightarrow> popen_wrapper" where
  "measured status =
     \<lparr> elapsed = Some 1, rss = Some 4096, vms = Some 8192, returncode = Some status,
       disk = Some 0 \<rparr>"

definition tool_exit :: "int \<Rightarrow> string list \<Rightarrow> tool_run" where
  "tool_exit status args = Exited (measured status)"

definition tool_fails_at :: "string \<Rightarrow> string list \<Rightarrow> tool_run" where
  "tool_fails_at path args = Exited (measured (if last args = path then 1 else 0))"

definition tool_interrupt_at :: "string \<Rightarrow> string list \<Rightarrow> tool_run" where
  "tool_interrupt_at path args = (if last args = path then Interrupted else Exited (measured 0))"

definition fails_for :: "string \<Rightarrow> node_data \<Rightarrow> error + popen_wrapper option" where
  "fails_for path package =
     (if recipe package = path then Inl CalledProcessError else Inr (Some (measured 0)))"

text \<open>
  A recipe directory with the recipes \<open>liba\<close> and \<open>libb\<close> (\<open>libb\<close> requires \<open>liba\<close>) and a hidden
  directory, where \<open>liba\<close> has changed; \<open>graph_ab\<close> is the graph that \<open>construct_graph\<close>
  builds from it.
\<close>

definition recipes_ab :: "string \<Rightarrow> recipe option" where
  "recipes_ab path =
     (if path = ''recipes/liba'' then
        Some \<lparr> pkg_name = ''liba'', pkg_meta = \<lparr> build = 0, depends = [], version = ''1.0'' \<rparr> \<rparr>
      else if path = ''recipes/libb'' then
        Some \<lparr> pkg_name = ''libb'',
               pkg_meta = \<lparr> build = 0, depends = [(''liba'', '''')], version = ''1.0'' \<rparr> \<rparr>
      else None)"

definition graph_ab :: digraph where
  "graph_ab = construct_graph ''recipes'' [''liba'', ''libb'', ''.git''] recipes_ab {''liba''}"

text \<open>Two recipes \<open>A\<close> and \<open>B\<close> that both require \<open>c\<close>.\<close>

definition graph_shared :: digraph where
  "graph_shared =
     \<lparr> nodes = [''A'', ''B'', ''c''],
       adj = (\<lambda>_. [])(''A'' := [''c''], ''B'' := [''c'']),
       node = (\<lambda>_. None)(''A'' := recipe_node [''c''] ''recipes/A'',
                          ''B'' := recipe_node [''c''] ''recipes/B'',
                          ''c'' := recipe_node [] ''recipes/c'') \<rparr>"

section \<open>Correctness of the topological sort and of the planner\<close>

lemma edges_iff: "(u, v) \<in> edges g \<longleftrightarrow> u \<in> set (nodes g) \<and> v \<in> set (adj g u)"
  by (auto simp: edges_def edges_iter_def)

lemma dfs_inv_pop:
  assumes "dfs_inv G V (w # rest) seen ex" "w \<in> ex"
  shows "dfs_inv G V rest seen ex"
  unfolding dfs_inv_def
proof (intro conjI ballI)
  show "set rest \<subseteq> V" using assms by (auto simp: dfs_inv_def)
next
  fix w' assume w': "w' \<in> seen - ex"
  with assms obtain above below where d: "w # rest = above @ w' # below" "w' \<notin> set above"
    "\<forall>v \<in> set (G w'). v \<notin> ex \<longrightarrow> v \<in> set above" "\<forall>x \<in> set above. (w', x) \<in> (gedges G V)\<^sup>+"
    unfolding dfs_inv_def by blast
  from w' assms(2) have "w' \<noteq> w" by auto
  with d(1) obtain above' where a: "above = w # above'" "rest = above' @ w' # below"
    by (cases above) auto
  show "\<exists>above below. rest = above @ w' # below \<and> w' \<notin> set above \<and>
        (\<forall>v \<in> set (G w'). v \<notin> ex \<longrightarrow> v \<in> set above) \<and>
        (\<forall>x \<in> set above. (w', x) \<in> (gedges G V)\<^sup>+)"
    using a d assms(2) by (intro exI[of _ above'] exI[of _ below]) auto
qed

lemma dfs_inv_finish:
  assumes "dfs_inv G V (w # rest) seen ex"
  shows "dfs_inv G V rest (insert w seen) (insert w ex)"
  unfolding dfs_inv_def
proof (intro conjI ballI)
  show "set rest \<subseteq> V" using assms by (auto simp: dfs_inv_def)
next
  fix w' assume w': "w' \<in> insert w seen - insert w ex"
  then have "w' \<in> seen - ex" "w' \<noteq> w" by auto
  with assms obtain above below where d: "w # rest = above @ w' # below" "w' \<notin> set above"
    "\<forall>v \<in> set (G w'). v \<notin> ex \<longrightarrow> v \<in> set above" "\<forall>x \<in> set above. (w', x) \<in> (gedges G V)\<^sup>+"
    unfolding dfs_inv_def by blast
  with \<open>w' \<noteq> w\<close> obtain above' where a: "above = w # above'" "rest = above' @ w' # below"
    by (cases above) auto
  show "\<exists>above below. rest = above @ w' # below \<and> w' \<notin> set above \<and>
        (\<forall>v \<in> set (G w'). v \<notin> insert w ex \<longrightarrow> v \<in> set above) \<and>
        (\<forall>x \<in> set above. (w', x) \<in> (gedges G V)\<^sup>+)"
    using a d by (intro exI[of _ above'] exI[of _ below]) auto
qed

lemma dfs_inv_push:
  assumes inv: "dfs_inv G V (w # rest) seen ex"
    and closed: "\<forall>u \<in> V. set (G u) \<subseteq> V"
    and new: "\<forall>n \<in> set (filter (\<lambda>n. n \<notin> ex) (G w)). n \<notin> insert w seen"
  shows "dfs_inv G V (rev (filter (\<lambda>n. n \<notin> ex) (G w)) @ w # rest) (insert w seen) ex"
  unfolding dfs_inv_def
proof (intro conjI ballI)
  from inv have wV: "w \<in> V" and rV: "set rest \<subseteq> V" by (auto simp: dfs_inv_def)
  with closed show "set (rev (filter (\<lambda>n. n \<notin> ex) (G w)) @ w # rest) \<subseteq> V" by auto
  fix w' assume w': "w' \<in> insert w seen - ex"
  let ?new = "filter (\<lambda>n. n \<notin> ex) (G w)"
  show "\<exists>above below. rev ?new @ w # rest = above @ w' # below \<and> w' \<notin> set above \<and>
        (\<forall>v \<in> set (G w'). v \<notin> ex \<longrightarrow> v \<in> set above) \<and>
        (\<forall>x \<in> set above. (w', x) \<in> (gedges G V)\<^sup>+)"
  proof (cases "w' = w")
    case True
    have "\<forall>x \<in> set (rev ?new). (w, x) \<in> (gedges G V)\<^sup>+"
      using wV by (auto simp: gedges_def)
    with True new show ?thesis
      by (intro exI[of _ "rev ?new"] exI[of _ rest]) auto
  next
    case False
    with w' have ws: "w' \<in> seen - ex" by auto
    with inv obtain above below where d: "w # rest = above @ w' # below" "w' \<notin> set above"
      "\<forall>v \<in> set (G w'). v \<notin> ex \<longrightarrow> v \<in> set above" "\<forall>x \<in> set above. (w', x) \<in> (gedges G V)\<^sup>+"
      unfolding dfs_inv_def by blast
    with False obtain above' where a: "above = w # above'" "rest = above' @ w' # below"
      by (cases above) auto
    from d(4) a have reach: "(w', w) \<in> (gedges G V)\<^sup>+" by auto
    have "\<forall>x \<in> set ?new. (w', x) \<in> (gedges G V)\<^sup>+"
    proof
      fix x assume "x \<in> set ?new"
      then have "(w, x) \<in> gedges G V" using wV by (auto simp: gedges_def)
      with reach show "(w', x) \<in> (gedges G V)\<^sup>+" by (rule trancl.trancl_into_trancl)
    qed
    moreover have "w' \<notin> set ?new" using new ws by auto
    ultimately show ?thesis using a d
      by (intro exI[of _ "rev ?new @ above"] exI[of _ below]) auto
  qed
qed

lemma dfs_inv_top_unseen:
  assumes "dfs_inv G V (w # rest) seen ex" "w \<notin> ex" "filter (\<lambda>n. n \<notin> ex) (G w) \<noteq> []"
  shows "w \<notin> seen"
proof
  assume "w \<in> seen"
  with assms obtain above below where d: "w # rest = above @ w # below" "w \<notin> set above"
    "\<forall>v \<in> set (G w). v \<notin> ex \<longrightarrow> v \<in> set above"
    unfolding dfs_inv_def by blast
  then have "above = []" by (cases above) auto
  with d(3) have "filter (\<lambda>n. n \<notin> ex) (G w) = []" by (auto simp: filter_empty_conv)
  with assms(3) show False by simp
qed

lemma dfs_inv_cycle:
  assumes "dfs_inv G V (w # rest) seen ex" "w \<notin> ex" "n \<in> set (G w)" "n \<notin> ex" "n \<in> insert w seen"
  shows "(n, n) \<in> (gedges G V)\<^sup>+"
proof (cases "n = w")
  case True
  from assms(1) have "w \<in> V" by (auto simp: dfs_inv_def)
  with True assms(3) show ?thesis by (auto simp: gedges_def)
next
  case False
  with assms obtain above below where d: "w # rest = above @ n # below"
    "\<forall>x \<in> set above. (n, x) \<in> (gedges G V)\<^sup>+"
    unfolding dfs_inv_def by blast
  with False have "w \<in> set above" by (cases above) auto
  with d have "(n, w) \<in> (gedges G V)\<^sup>+" by auto
  moreover from assms(1,3) have "(w, n) \<in> gedges G V" by (auto simp: gedges_def dfs_inv_def)
  ultimately show ?thesis by (rule trancl.trancl_into_trancl)
qed

lemma dfs_inv_empty: "dfs_inv G V [] seen ex \<Longrightarrow> seen \<subseteq> ex"
  by (auto simp: dfs_inv_def)

lemma deps_first_snoc:
  assumes "deps_first G order" "w \<notin> set order" "set (G w) \<subseteq> set order"
  shows "deps_first G (order @ [w])"
  using assms by (auto simp: deps_first_def nth_append less_Suc_eq)

lemma topo_while_correct_aux:
  assumes fin: "finite V" and closed: "\<forall>u \<in> V. set (G u) \<subseteq> V"
    and s: "s = (card (V - ex), card (V - seen), length fr)"
  shows "dfs_inv G V fr seen ex \<Longrightarrow> topo_inv G V ex ord \<Longrightarrow>
         \<exists>r. topo_while G fr seen ex ord = Some r \<and> dfs_post G V fr ex r"
  using wf_lex_prod[OF wf_less_than wf_lex_prod[OF wf_less_than wf_less_than]] s
proof (induction s arbitrary: fr seen ex ord rule: wf_induct_rule)
  case (less s)
  note IH = less(1)[OF _ _ _ refl] and inv = less(2) and ti = less(3) and s = less(4)
  show ?case
  proof (cases fr)
    case Nil
    with inv ti show ?thesis
      by (subst topo_while.simps) (auto simp: dfs_post_def dest: dfs_inv_empty)
  next
    case (Cons w rest)
    let ?new = "filter (\<lambda>n. n \<notin> ex) (G w)"
    from inv Cons have wV: "w \<in> V" by (auto simp: dfs_inv_def)
    consider (pop) "w \<in> ex"
      | (raise) "w \<notin> ex" "\<exists>n \<in> set ?new. n \<in> insert w seen"
      | (push) "w \<notin> ex" "\<not> (\<exists>n \<in> set ?new. n \<in> insert w seen)" "?new \<noteq> []"
      | (finish) "w \<notin> ex" "?new = []"
      by auto
    then show ?thesis
    proof cases
      case pop
      have "dfs_inv G V rest seen ex" using inv Cons pop by (auto intro: dfs_inv_pop)
      have "((card (V - ex), card (V - seen), length rest), s) \<in> less_than <*lex*> less_than <*lex*> less_than"
        using s Cons by simp
      from IH[OF this \<open>dfs_inv G V rest seen ex\<close> ti]
      obtain r where r: "topo_while G rest seen ex ord = Some r" "dfs_post G V rest ex r"
        by auto
      have "topo_while G fr seen ex ord = Some r"
        using r(1) pop Cons by (subst topo_while.simps) simp
      moreover have "dfs_post G V fr ex r"
        using r(2) pop Cons by (auto simp: dfs_post_def split: sum.splits)
      ultimately show ?thesis by blast
    next
      case raise
      then obtain n where n: "n \<in> set (G w)" "n \<notin> ex" "n \<in> insert w seen" by auto
      from dfs_inv_cycle[OF inv[unfolded Cons] raise(1) n]
      have "\<not> acyclic (gedges G V)" by (auto simp: acyclic_def)
      moreover have "topo_while G fr seen ex ord = Some (Inl NetworkXUnfeasible)"
        using raise Cons by (subst topo_while.simps) simp
      ultimately show ?thesis by (simp add: dfs_post_def)
    next
      case push
      have unseen: "w \<notin> seen" using dfs_inv_top_unseen[OF inv[unfolded Cons] push(1,3)] .
      have inv': "dfs_inv G V (rev ?new @ w # rest) (insert w seen) ex"
        using dfs_inv_push[OF inv[unfolded Cons] closed] push(2) by blast
      have "card (V - insert w seen) < card (V - seen)"
        using unseen wV fin by (intro psubset_card_mono) auto
      then have "((card (V - ex), card (V - insert w seen), length (rev ?new @ w # rest)),
                  s) \<in> less_than <*lex*> less_than <*lex*> less_than"
        using s Cons by simp
      from IH[OF this inv' ti]
      obtain r where r: "topo_while G (rev ?new @ w # rest) (insert w seen) ex ord = Some r"
        "dfs_post G V (rev ?new @ w # rest) ex r" by auto
      have "topo_while G fr seen ex ord = Some r"
        using r(1) push Cons by (subst topo_while.simps) auto
      moreover have "dfs_post G V fr ex r"
        using r(2) Cons by (auto simp: dfs_post_def split: sum.splits)
      ultimately show ?thesis by blast
    next
      case finish
      have inv': "dfs_inv G V rest (insert w seen) (insert w ex)"
        using dfs_inv_finish[OF inv[unfolded Cons]] .
      from finish(2) have sub: "set (G w) \<subseteq> ex" by (auto simp: filter_empty_conv)
      have ti': "topo_inv G V (insert w ex) (ord @ [w])"
        using ti finish(1) sub wV by (auto simp: topo_inv_def intro!: deps_first_snoc)
      have "card (V - insert w ex) < card (V - ex)"
        using finish(1) wV fin by (intro psubset_card_mono) auto
      then have "((card (V - insert w ex), card (V - insert w seen), length rest),
                  s) \<in> less_than <*lex*> less_than <*lex*> less_than"
        using s Cons by simp
      from IH[OF this inv' ti']
      obtain r where r: "topo_while G rest (insert w seen) (insert w ex) (ord @ [w]) = Some r"
        "dfs_post G V rest (insert w ex) r" by auto
      have "topo_while G fr seen ex ord = Some r"
        using r(1) finish Cons by (subst topo_while.simps) simp
      moreover have "dfs_post G V fr ex r"
        using r(2) Cons by (auto simp: dfs_post_def split: sum.splits)
      ultimately show ?thesis by blast
    qed
  qed
qed

lemma pos_Cons: "pos (y # ys) x = (if y = x then 0 else Suc (pos ys x))"
  by (simp add: pos_def)

lemma pos_take: "v \<in> set (take i xs) \<Longrightarrow> pos xs v < i"
proof (induction xs arbitrary: i)
  case Nil
  then show ?case by simp
next
  case (Cons y ys)
  then show ?case by (cases i) (auto simp: pos_Cons)
qed

lemma pos_nth: "x \<in> set xs \<Longrightarrow> pos xs x < length xs \<and> xs ! pos xs x = x"
  by (induction xs) (auto simp: pos_Cons)

lemma deps_first_pos:
  assumes "deps_first G order" "u \<in> set order" "v \<in> set (G u)"
  shows "v \<in> set order \<and> pos order v < pos order u"
proof -
  define i where "i = pos order u"
  from pos_nth[OF assms(2)] have i: "i < length order" "order ! i = u" by (auto simp: i_def)
  from assms(1) i(1) have "set (G (order ! i)) \<subseteq> set (take i order)"
    unfolding deps_first_def by blast
  with i(2) assms(3) have v: "v \<in> set (take i order)" by blast
  from pos_take[OF v] in_set_takeD[OF v] show ?thesis by (simp add: i_def)
qed

lemma deps_first_acyclic:
  assumes "deps_first G order" "V \<subseteq> set order"
  shows "acyclic (gedges G V)"
proof (rule acyclicI_order[where f = "pos order"])
  fix a b assume "(a, b) \<in> gedges G V"
  then have "a \<in> set order" "b \<in> set (G a)" using assms(2) by (auto simp: gedges_def)
  with deps_first_pos[OF assms(1)] show "pos order b < pos order a" by blast
qed

lemma topo_for_correct:
  assumes fin: "finite V" and closed: "\<forall>u \<in> V. set (G u) \<subseteq> V"
  shows "set vs \<subseteq> V \<Longrightarrow> seen \<subseteq> ex \<Longrightarrow> topo_inv G V ex ord \<Longrightarrow>
         \<exists>r. topo_for G vs seen ex ord = Some r \<and> sort_post G V r \<and>
             (\<forall>order. r = Inr order \<longrightarrow> set vs \<union> ex \<subseteq> set order)"
proof (induction vs arbitrary: seen ex ord)
  case Nil
  then show ?case by (auto simp: sort_post_def topo_inv_def)
next
  case (Cons v vs)
  show ?case
  proof (cases "v \<in> ex")
    case True
    from Cons.IH[OF _ Cons.prems(2,3)] Cons.prems(1)
    obtain r where "topo_for G vs seen ex ord = Some r" "sort_post G V r"
      "\<forall>order. r = Inr order \<longrightarrow> set vs \<union> ex \<subseteq> set order" by auto
    with True show ?thesis by auto
  next
    case False
    have "dfs_inv G V [v] seen ex" using Cons.prems(1,2) by (auto simp: dfs_inv_def)
    from topo_while_correct_aux[OF fin closed refl this Cons.prems(3)]
    obtain r where r: "topo_while G [v] seen ex ord = Some r" "dfs_post G V [v] ex r" by blast
    show ?thesis
    proof (cases r)
      case (Inl e)
      with r False show ?thesis by (auto simp: dfs_post_def sort_post_def)
    next
      case (Inr t)
      obtain seen' ex' ord' where t: "t = (seen', ex', ord')" by (cases t) auto
      with r(2) Inr have p: "topo_inv G V ex' ord'" "insert v ex \<subseteq> ex'" "seen' \<subseteq> ex'"
        by (auto simp: dfs_post_def)
      from Cons.IH[OF _ p(3) p(1)] Cons.prems(1)
      obtain r' where r': "topo_for G vs seen' ex' ord' = Some r'" "sort_post G V r'"
        "\<forall>order. r' = Inr order \<longrightarrow> set vs \<union> ex' \<subseteq> set order" by auto
      have "topo_for G (v # vs) seen ex ord = Some r'"
        using False r(1) Inr t r'(1) by simp
      moreover have "\<forall>order. r' = Inr order \<longrightarrow> set (v # vs) \<union> ex \<subseteq> set order"
        using r'(3) p(2) by auto
      ultimately show ?thesis using r'(2) by blast
    qed
  qed
qed

lemma gedges_edges: "gedges (adj g) (set (nodes g)) = edges g"
  by (auto simp: gedges_def edges_iff)

lemma wf_digraph_closed: "wf_digraph g \<Longrightarrow> \<forall>u \<in> set (nodes g). set (adj g u) \<subseteq> set (nodes g)"
  by (auto simp: wf_digraph_def list_all_iff)

text \<open>The documented behaviour of the library function, proved of the model.\<close>

lemma topological_sort_reverse:
  assumes "wf_digraph g"
  shows "\<exists>r. topological_sort g True = Some r \<and>
    (case r of
       Inl e \<Rightarrow> e = NetworkXUnfeasible \<and> \<not> acyclic (edges g)
     | Inr order \<Rightarrow> acyclic (edges g) \<and> distinct order \<and> set order = set (nodes g) \<and>
         (\<forall>(u, v) \<in> edges g. pos order v < pos order u))"
proof -
  have ti: "topo_inv (adj g) (set (nodes g)) {} []"
    by (simp add: topo_inv_def deps_first_def)
  from topo_for_correct[OF _ wf_digraph_closed[OF assms] subset_refl subset_refl ti]
  obtain r where r: "topo_for (adj g) (nodes g) {} {} [] = Some r"
    "sort_post (adj g) (set (nodes g)) r"
    "\<forall>order. r = Inr order \<longrightarrow> set (nodes g) \<union> {} \<subseteq> set order" by auto
  show ?thesis
  proof (cases r)
    case (Inl e)
    with r show ?thesis by (auto simp: topological_sort_def sort_post_def gedges_edges)
  next
    case (Inr order)
    with r have o: "deps_first (adj g) order" "set order = set (nodes g)"
      by (auto simp: sort_post_def)
    then have "acyclic (edges g)" using deps_first_acyclic[of "adj g" order "set (nodes g)"]
      by (simp add: gedges_edges)
    moreover have "\<forall>(u, v) \<in> edges g. pos order v < pos order u"
      using deps_first_pos[OF o(1)] o(2) by (auto simp: edges_iff)
    moreover have "distinct order" using o(1) by (simp add: deps_first_def)
    ultimately show ?thesis using r(1) Inr o(2) by (simp add: topological_sort_def)
  qed
qed

lemma set_set_add: "set (set_add x xs) = insert x (set xs)"
  by (auto simp: set_add_def)

lemma distinct_set_add: "distinct xs \<Longrightarrow> distinct (set_add x xs)"
  by (auto simp: set_add_def)

lemma set_set_update: "set (set_update xs ys) = set xs \<union> set ys"
  unfolding set_update_def by (induction ys arbitrary: xs) (auto simp: set_set_add)

lemma nodes_add_node: "set (nodes (add_node n g)) = insert n (set (nodes g))"
  by (auto simp: add_node_def)

lemma edges_add_node: "edges (add_node n g) = edges g"
  by (auto simp: add_node_def edges_iff split: if_splits)

lemma wf_add_node: "wf_digraph g \<Longrightarrow> wf_digraph (add_node n g)"
  by (auto simp: add_node_def wf_digraph_def list_all_iff)

lemma nodes_add_edge: "set (nodes (add_edge u v g)) = insert u (insert v (set (nodes g)))"
  by (auto simp: add_edge_def Let_def nodes_add_node)

lemma edges_add_edge: "edges (add_edge u v g) = insert (u, v) (edges g)"
proof -
  let ?g = "add_node v (add_node u g)"
  have "edges (add_edge u v g) = insert (u, v) (edges ?g)"
    by (auto simp: add_edge_def Let_def edges_iff set_set_add nodes_add_node split: if_splits)
  then show ?thesis by (simp add: edges_add_node)
qed

lemma wf_add_edge: "wf_digraph g \<Longrightarrow> wf_digraph (add_edge u v g)"
proof -
  assume "wf_digraph g"
  then have w: "wf_digraph (add_node v (add_node u g))" by (intro wf_add_node)
  then show ?thesis
    by (auto simp: add_edge_def Let_def wf_digraph_def list_all_iff set_set_add nodes_add_node)
qed

lemma sub_inv_add_edge:
  assumes "sub_inv graph tmp" "(u, v) \<in> edges graph" "wf_digraph graph"
  shows "sub_inv graph (add_edge u v tmp)"
proof -
  from assms(2,3) have "u \<in> set (nodes graph)" "v \<in> set (nodes graph)"
    by (auto simp: edges_iff wf_digraph_def list_all_iff)
  with assms(1,2) show ?thesis
    by (auto simp: sub_inv_def wf_add_edge nodes_add_edge edges_add_edge)
qed

lemma sub_inv_add_edges_from:
  assumes "wf_digraph graph"
  shows "sub_inv graph tmp \<Longrightarrow> set es \<subseteq> edges graph \<Longrightarrow> sub_inv graph (add_edges_from es tmp)"
  unfolding add_edges_from_def
proof (induction es arbitrary: tmp)
  case Nil
  then show ?case by simp
next
  case (Cons e es)
  obtain u v where e: "e = (u, v)" by (cases e)
  with Cons.prems have "sub_inv graph (add_edge u v tmp)"
    by (intro sub_inv_add_edge assms) auto
  with Cons e show ?case by simp
qed

lemma edges_iter_sub: "p \<in> set (nodes graph) \<Longrightarrow> set (edges_iter graph p) \<subseteq> edges graph"
  by (auto simp: edges_def)

lemma expand_level_inv:
  assumes wf: "wf_digraph graph"
  shows "expand_level graph ps newcurr tmp = Inr (newcurr', tmp') \<Longrightarrow> sub_inv graph tmp \<Longrightarrow>
         set newcurr \<subseteq> set (nodes graph) \<Longrightarrow>
         sub_inv graph tmp' \<and> set newcurr' \<subseteq> set (nodes graph)"
proof (induction ps arbitrary: newcurr tmp)
  case Nil
  then show ?case by simp
next
  case (Cons p ps)
  from Cons.prems(1) have p: "p \<in> set (nodes graph)"
    by (auto simp: successors_def split: if_splits)
  with Cons.prems(1) have rec: "expand_level graph ps (set_update newcurr (adj graph p))
      (add_edges_from (edges_iter graph p) tmp) = Inr (newcurr', tmp')"
    by (simp add: successors_def)
  have "sub_inv graph (add_edges_from (edges_iter graph p) tmp)"
    using Cons.prems(2) p by (intro sub_inv_add_edges_from wf edges_iter_sub)
  moreover have "set (set_update newcurr (adj graph p)) \<subseteq> set (nodes graph)"
    using Cons.prems(3) p wf_digraph_closed[OF wf] by (auto simp: set_set_update)
  ultimately show ?case using Cons.IH[OF rec] by blast
qed

lemma expand_level_total:
  "set ps \<subseteq> set (nodes graph) \<Longrightarrow> \<exists>r. expand_level graph ps newcurr tmp = Inr r"
  by (induction ps arbitrary: newcurr tmp) (auto simp: successors_def)

lemma expand_inv:
  "expand graph level cl tmp = Inr tmp' \<Longrightarrow> sub_inv graph tmp \<Longrightarrow> wf_digraph graph \<Longrightarrow>
   sub_inv graph tmp'"
proof (induction graph level cl tmp rule: expand.induct)
  case (1 graph level cl tmp)
  show ?case
  proof (cases "level > 0")
    case True
    with "1.prems"(1) obtain newcurr t where
      el: "expand_level graph cl [] tmp = Inr (newcurr, t)"
      and rec: "expand graph (level - 1) newcurr t = Inr tmp'"
      by (subst (asm) expand.simps) (auto split: sum.splits)
    from expand_level_inv[OF "1.prems"(3) el "1.prems"(2)] have "sub_inv graph t" by simp
    from "1.IH"[OF True el refl rec this "1.prems"(3)] show ?thesis .
  next
    case False
    with "1.prems" show ?thesis by (subst (asm) expand.simps) simp
  qed
qed

lemma nodes_subgraph: "set (nodes (subgraph g ns)) = set ns \<inter> set (nodes g)"
  by (auto simp: subgraph_def Let_def)

lemma edges_subgraph:
  "edges (subgraph g ns) = {(u, v). (u, v) \<in> edges g \<and> u \<in> set ns \<and> v \<in> set ns \<and> v \<in> set (nodes g)}"
  by (auto simp: subgraph_def Let_def edges_iff)

lemma wf_subgraph: "wf_digraph (subgraph g ns)"
  by (auto simp: subgraph_def Let_def wf_digraph_def list_all_iff)

lemma sub_inv_subgraph: "sub_inv g (subgraph g ns)"
  by (auto simp: sub_inv_def wf_subgraph nodes_subgraph edges_subgraph)

lemma expand_total:
  "set cl \<subseteq> set (nodes graph) \<Longrightarrow> sub_inv graph tmp \<Longrightarrow> wf_digraph graph \<Longrightarrow>
   \<exists>t. expand graph level cl tmp = Inr t"
proof (induction graph level cl tmp rule: expand.induct)
  case (1 graph level cl tmp)
  show ?case
  proof (cases "level > 0")
    case True
    from expand_level_total[OF "1.prems"(1)] obtain newcurr t where
      el: "expand_level graph cl [] tmp = Inr (newcurr, t)" by fastforce
    from expand_level_inv[OF "1.prems"(3) el "1.prems"(2)]
    have "sub_inv graph t" "set newcurr \<subseteq> set (nodes graph)" by simp_all
    from "1.IH"[OF True el refl this(2,1) "1.prems"(3)] obtain t' where
      "expand graph (level - 1) newcurr t = Inr t'" by blast
    with True el show ?thesis by (subst expand.simps) simp
  next
    case False
    then show ?thesis by (subst expand.simps) simp
  qed
qed

lemma plan_subgraph_inv:
  assumes "wf_digraph graph" "plan_subgraph graph packages level = Inr tmp"
  shows "sub_inv graph tmp"
proof (cases packages)
  case None
  with assms(2) show ?thesis by (auto simp: plan_subgraph_def sub_inv_subgraph)
next
  case (Some ps)
  show ?thesis
  proof (cases "level > 0")
    case True
    with Some assms(2) have "expand graph level (remdups ps) (subgraph graph (remdups ps)) = Inr tmp"
      by (simp add: plan_subgraph_def Let_def)
    from expand_inv[OF this sub_inv_subgraph assms(1)] show ?thesis .
  next
    case False
    with Some assms(2) show ?thesis by (auto simp: plan_subgraph_def Let_def sub_inv_subgraph)
  qed
qed

lemma plan_subgraph_total:
  assumes "wf_digraph graph" "\<forall>ps. packages = Some ps \<and> level > 0 \<longrightarrow> set ps \<subseteq> set (nodes graph)"
  shows "\<exists>tmp. plan_subgraph graph packages level = Inr tmp"
proof (cases packages)
  case None
  then show ?thesis by (simp add: plan_subgraph_def)
next
  case (Some ps)
  show ?thesis
  proof (cases "level > 0")
    case True
    with Some assms(2) have "set (remdups ps) \<subseteq> set (nodes graph)" by simp
    from expand_total[OF this sub_inv_subgraph assms(1), of level] obtain t where
      "expand graph level (remdups ps) (subgraph graph (remdups ps)) = Inr t" by blast
    with Some True show ?thesis
      by (simp add: plan_subgraph_def Let_def)
  next
    case False
    with Some show ?thesis by (simp add: plan_subgraph_def Let_def)
  qed
qed

lemma plan_subgraph_induced:
  assumes "wf_digraph graph" "level \<le> 0 \<or> packages = None"
    "plan_subgraph graph packages level = Inr tmp"
  shows "edges tmp = {(u, v). (u, v) \<in> edges graph \<and> u \<in> set (nodes tmp) \<and> v \<in> set (nodes tmp)}"
proof -
  obtain ns where "tmp = subgraph graph ns"
    using assms(2,3) by (cases packages) (auto simp: plan_subgraph_def Let_def)
  moreover have "\<And>u v. (u, v) \<in> edges graph \<Longrightarrow> u \<in> set (nodes graph) \<and> v \<in> set (nodes graph)"
    using assms(1) by (auto simp: edges_iff wf_digraph_def list_all_iff)
  ultimately show ?thesis by (auto simp: edges_subgraph nodes_subgraph)
qed

lemma copy_node_data_ok:
  assumes "sub_inv graph tmp"
  shows "\<exists>t. copy_node_data graph tmp = Inr t \<and> nodes t = nodes tmp \<and> adj t = adj tmp \<and>
             (\<forall>n \<in> set (nodes tmp). node t n = node graph n)"
  using assms by (auto simp: copy_node_data_def sub_inv_def list_all_iff)

lemma edges_cong: "nodes t = nodes tmp \<Longrightarrow> adj t = adj tmp \<Longrightarrow> edges t = edges tmp"
  by (simp add: edges_def edges_iter_def)

lemma wf_digraph_cong: "nodes t = nodes tmp \<Longrightarrow> adj t = adj tmp \<Longrightarrow> wf_digraph t = wf_digraph tmp"
  by (simp add: wf_digraph_def)

text \<open>What \<open>build_order\<close> does once the temporary graph exists.\<close>

lemma build_order_result:
  assumes wf: "wf_digraph graph" and plan: "plan_subgraph graph packages level = Inr tmp"
  shows "\<exists>t r. copy_node_data graph tmp = Inr t \<and> nodes t = nodes tmp \<and> adj t = adj tmp \<and>
           (\<forall>n \<in> set (nodes tmp). node t n = node graph n) \<and>
           topological_sort t True = Some r \<and>
           build_order graph packages level = Some (map_sum id (Pair t) r) \<and>
           (case r of
              Inl e \<Rightarrow> e = NetworkXUnfeasible \<and> \<not> acyclic (edges tmp)
            | Inr order \<Rightarrow> acyclic (edges tmp) \<and> distinct order \<and> set order = set (nodes tmp) \<and>
                (\<forall>(u, v) \<in> edges tmp. pos order v < pos order u))"
proof -
  from plan_subgraph_inv[OF wf plan] have si: "sub_inv graph tmp" .
  from copy_node_data_ok[OF si] obtain t where t: "copy_node_data graph tmp = Inr t"
    "nodes t = nodes tmp" "adj t = adj tmp" "\<forall>n \<in> set (nodes tmp). node t n = node graph n"
    by blast
  from si have "wf_digraph t" using wf_digraph_cong[OF t(2,3)] by (simp add: sub_inv_def)
  from topological_sort_reverse[OF this] obtain r where r: "topological_sort t True = Some r"
    "case r of Inl e \<Rightarrow> e = NetworkXUnfeasible \<and> \<not> acyclic (edges t)
     | Inr order \<Rightarrow> acyclic (edges t) \<and> distinct order \<and> set order = set (nodes t) \<and>
         (\<forall>(u, v) \<in> edges t. pos order v < pos order u)" by blast
  have "build_order graph packages level = Some (map_sum id (Pair t) r)"
    using plan t(1) r(1) by (cases r) (simp_all add: build_order_def)
  moreover note e = edges_cong[OF t(2,3)]
  moreover have "case r of Inl e \<Rightarrow> e = NetworkXUnfeasible \<and> \<not> acyclic (edges tmp)
     | Inr order \<Rightarrow> acyclic (edges tmp) \<and> distinct order \<and> set order = set (nodes tmp) \<and>
         (\<forall>(u, v) \<in> edges tmp. pos order v < pos order u)"
    using r(2) unfolding e t(2) .
  ultimately show ?thesis using t r(1) by blast
qed

section \<open>The coalescer: lemmas\<close>

lemma set_names_of: "set (names_of d) = (\<Union>(k, vs) \<in> set d. insert k (set vs))"
  by (auto simp: names_of_def)

lemma getitem_default_names: "set (getitem_default d k) \<subseteq> set (names_of d)"
proof (cases "map_of d k")
  case None
  then show ?thesis by (simp add: getitem_default_def)
next
  case (Some vs)
  then have "(k, vs) \<in> set d" by (rule map_of_SomeD)
  then have "set vs \<subseteq> set (names_of d)" by (force simp: set_names_of)
  with Some show ?thesis by (simp add: getitem_default_def)
qed

lemma getitem_default_Cons:
  "getitem_default ((k', w) # d) k = (if k' = k then w else getitem_default d k)"
  by (simp add: getitem_default_def)

lemma names_setitem:
  "set (getitem_default d k) \<subseteq> set v \<Longrightarrow>
   set (names_of (setitem d k v)) = set (names_of d) \<union> insert k (set v)"
proof (induction d)
  case Nil
  then show ?case by (simp add: names_of_def)
next
  case (Cons a d)
  obtain k' w where a: "a = (k', w)" by (cases a)
  show ?case
  proof (cases "k' = k")
    case True
    with Cons.prems a show ?thesis by (auto simp: names_of_def getitem_default_Cons)
  next
    case False
    with Cons.prems a have "set (getitem_default d k) \<subseteq> set v"
      by (simp add: getitem_default_Cons)
    from Cons.IH[OF this] False a show ?thesis by (auto simp: names_of_def)
  qed
qed

lemma keys_setitem: "set (map fst (setitem d k v)) = insert k (set (map fst d))"
  by (induction d k v rule: setitem.induct) auto

lemma distinct_keys_setitem: "distinct (map fst d) \<Longrightarrow> distinct (map fst (setitem d k v))"
proof (induction d k v rule: setitem.induct)
  case (1 key v)
  then show ?case by simp
next
  case (2 k w d key v)
  show ?case
  proof (cases "k = key")
    case True
    with 2 show ?thesis by simp
  next
    case False
    with 2 have "distinct (map fst (setitem d key v))" by simp
    moreover have "k \<notin> set (map fst (setitem d key v))"
      using 2(2) False unfolding keys_setitem by simp
    ultimately show ?thesis using False by simp
  qed
qed

lemma group_ok_setitem:
  "group_ok d \<Longrightarrow> distinct v \<Longrightarrow> k \<notin> set v \<Longrightarrow> group_ok (setitem d k v)"
  by (induction d k v rule: setitem.induct) (auto simp: group_ok_def)

lemma group_ok_getitem_default:
  "group_ok d \<Longrightarrow> distinct (getitem_default d k) \<and> k \<notin> set (getitem_default d k)"
  by (auto simp: group_ok_def getitem_default_def list_all_iff split: option.splits
           dest!: map_of_SomeD)

lemma names_merge_group:
  "set (names_of (merge_group key g co)) = set (names_of co) \<union> insert key (set g)"
proof -
  let ?old = "getitem_default co key"
  let ?v = "?old @ filter (\<lambda>gi. gi \<notin> set ?old \<and> gi \<noteq> key) g"
  have "set (names_of (setitem co key ?v)) = set (names_of co) \<union> insert key (set ?v)"
    by (rule names_setitem) simp
  moreover have "set ?old \<subseteq> set (names_of co)" by (rule getitem_default_names)
  ultimately show ?thesis unfolding merge_group_def by auto
qed

lemma group_ok_merge_group:
  assumes "group_ok co" "distinct g"
  shows "group_ok (merge_group key g co)"
  unfolding merge_group_def
  using group_ok_getitem_default[OF assms(1), of key] assms
  by (intro group_ok_setitem) auto

lemma distinct_keys_merge_group:
  "distinct (map fst co) \<Longrightarrow> distinct (map fst (merge_group key g co))"
  by (simp add: merge_group_def distinct_keys_setitem)

lemma flush_in_loop_eq: "flush_in_loop key grp co = flush_after_loop key grp co"
  by (simp add: flush_in_loop_def flush_after_loop_def list_equals_str_def)

lemma names_flush:
  "set (names_of (flush_after_loop key grp co)) =
     set (names_of co) \<union> (if grp = [] then {} else {key}) \<union> \<Union>(set ` set grp)"
  unfolding flush_after_loop_def
  by (induction grp arbitrary: co) (auto simp: names_merge_group)

lemma group_ok_flush:
  "group_ok co \<Longrightarrow> list_all distinct grp \<Longrightarrow> group_ok (flush_after_loop key grp co)"
  unfolding flush_after_loop_def
  by (induction grp arbitrary: co) (auto simp: group_ok_merge_group)

lemma distinct_keys_flush:
  "distinct (map fst co) \<Longrightarrow> distinct (map fst (flush_after_loop key grp co))"
  unfolding flush_after_loop_def
  by (induction grp arbitrary: co) (auto simp: distinct_keys_merge_group)

lemma getitem_in_keys:
  assumes "key \<in> fst ` set hi"
  obtains v where "map_of hi key = Some v" "getitem hi key = Inr v" "getitem_default hi key = v"
proof -
  from assms obtain v where "map_of hi key = Some v"
    by (cases "map_of hi key") (auto simp: map_of_eq_None_iff)
  then show ?thesis by (intro that[of v]) (simp_all add: getitem_def getitem_default_def)
qed

lemma coalesce_loop_step:
  assumes "getitem hi key = Inr v"
  shows "coalesce_loop hi t ((key, count) # cs) co grp lk =
     (if int (sum_list (map length (grp @ [v @ [key]]))) \<ge> t
      then coalesce_loop hi t cs (flush_after_loop key (grp @ [v @ [key]]) co) [] (Some key)
      else coalesce_loop hi t cs co (grp @ [v @ [key]]) (Some key))"
  using assms by (simp add: flush_in_loop_eq Let_def)

lemma coalesce_loop_total:
  "fst ` set cs \<subseteq> fst ` set hi \<Longrightarrow> \<exists>s. coalesce_loop hi t cs co grp lk = Inr s"
proof (induction cs arbitrary: co grp lk)
  case Nil
  then show ?case by simp
next
  case (Cons c cs)
  obtain key count where c: "c = (key, count)" by (cases c)
  with Cons.prems have "key \<in> fst ` set hi" by auto
  then obtain v where v: "getitem hi key = Inr v" by (rule getitem_in_keys)
  from Cons.prems have "fst ` set cs \<subseteq> fst ` set hi" by auto
  from Cons.IH[OF this] show ?case unfolding c coalesce_loop_step[OF v] by simp
qed

lemma coalesce_loop_names:
  "coalesce_loop hi t cs co grp lk = Inr (co', grp', lk') \<Longrightarrow> fst ` set cs \<subseteq> fst ` set hi \<Longrightarrow>
   set (names_of co') \<union> \<Union>(set ` set grp') =
     set (names_of co) \<union> \<Union>(set ` set grp) \<union> (\<Union>k \<in> fst ` set cs. closure_names hi k)"
proof (induction cs arbitrary: co grp lk)
  case Nil
  then show ?case by simp
next
  case (Cons c cs)
  obtain key count where c: "c = (key, count)" by (cases c)
  with Cons.prems have "key \<in> fst ` set hi" by auto
  then obtain v where v: "getitem hi key = Inr v" "getitem_default hi key = v"
    by (rule getitem_in_keys)
  have cn: "closure_names hi key = set (v @ [key])" by (auto simp: closure_names_def v)
  from Cons.prems have keys: "fst ` set cs \<subseteq> fst ` set hi" by auto
  let ?grp = "grp @ [v @ [key]]"
  show ?case
  proof (cases "int (sum_list (map length ?grp)) \<ge> t")
    case True
    with Cons.prems(1) have "coalesce_loop hi t cs (flush_after_loop key ?grp co) [] (Some key)
        = Inr (co', grp', lk')" unfolding c coalesce_loop_step[OF v(1)] by simp
    from Cons.IH[OF this keys]
    have "set (names_of co') \<union> \<Union>(set ` set grp') =
      set (names_of (flush_after_loop key ?grp co)) \<union> \<Union>(set ` set []) \<union>
      (\<Union>k \<in> fst ` set cs. closure_names hi k)" .
    also have "\<dots> = set (names_of co) \<union> \<Union>(set ` set grp) \<union>
      (\<Union>k \<in> fst ` set (c # cs). closure_names hi k)"
      using cn by (auto simp: c names_flush)
    finally show ?thesis .
  next
    case False
    with Cons.prems(1) have "coalesce_loop hi t cs co ?grp (Some key) = Inr (co', grp', lk')"
      unfolding c coalesce_loop_step[OF v(1)] by simp
    from Cons.IH[OF this keys]
    have "set (names_of co') \<union> \<Union>(set ` set grp') =
      set (names_of co) \<union> \<Union>(set ` set ?grp) \<union>
      (\<Union>k \<in> fst ` set cs. closure_names hi k)" .
    also have "\<dots> = set (names_of co) \<union> \<Union>(set ` set grp) \<union>
      (\<Union>k \<in> fst ` set (c # cs). closure_names hi k)"
      using cn by (auto simp: c)
    finally show ?thesis .
  qed
qed

lemma coalesce_loop_keys:
  "coalesce_loop hi t cs co grp lk = Inr (co', grp', lk') \<Longrightarrow> fst ` set cs \<subseteq> fst ` set hi \<Longrightarrow>
   distinct (map fst co) \<Longrightarrow> distinct (map fst co')"
proof (induction cs arbitrary: co grp lk)
  case Nil
  then show ?case by simp
next
  case (Cons c cs)
  obtain key count where c: "c = (key, count)" by (cases c)
  with Cons.prems have "key \<in> fst ` set hi" by auto
  then obtain v where v: "getitem hi key = Inr v" by (rule getitem_in_keys)
  from Cons.prems have keys: "fst ` set cs \<subseteq> fst ` set hi" by auto
  let ?grp = "grp @ [v @ [key]]"
  show ?case
  proof (cases "int (sum_list (map length ?grp)) \<ge> t")
    case True
    with Cons.prems(1) have "coalesce_loop hi t cs (flush_after_loop key ?grp co) [] (Some key)
        = Inr (co', grp', lk')" unfolding c coalesce_loop_step[OF v] by simp
    from Cons.IH[OF this keys distinct_keys_flush[OF Cons.prems(3)]] show ?thesis .
  next
    case False
    with Cons.prems(1) have "coalesce_loop hi t cs co ?grp (Some key) = Inr (co', grp', lk')"
      unfolding c coalesce_loop_step[OF v] by simp
    from Cons.IH[OF this keys Cons.prems(3)] show ?thesis .
  qed
qed

lemma coalesce_loop_group_ok:
  "coalesce_loop hi t cs co grp lk = Inr (co', grp', lk') \<Longrightarrow> fst ` set cs \<subseteq> fst ` set hi \<Longrightarrow>
   group_ok hi \<Longrightarrow> group_ok co \<Longrightarrow> list_all distinct grp \<Longrightarrow>
   group_ok co' \<and> list_all distinct grp'"
proof (induction cs arbitrary: co grp lk)
  case Nil
  then show ?case by simp
next
  case (Cons c cs)
  obtain key count where c: "c = (key, count)" by (cases c)
  with Cons.prems have "key \<in> fst ` set hi" by auto
  then obtain v where v: "map_of hi key = Some v" "getitem hi key = Inr v"
    by (rule getitem_in_keys)
  have dv: "distinct (v @ [key])"
    using map_of_SomeD[OF v(1)] Cons.prems(3) by (auto simp: group_ok_def list_all_iff)
  from Cons.prems have keys: "fst ` set cs \<subseteq> fst ` set hi" by auto
  let ?grp = "grp @ [v @ [key]]"
  have dg: "list_all distinct ?grp" using Cons.prems(5) dv by simp
  show ?case
  proof (cases "int (sum_list (map length ?grp)) \<ge> t")
    case True
    with Cons.prems(1) have "coalesce_loop hi t cs (flush_after_loop key ?grp co) [] (Some key)
        = Inr (co', grp', lk')" unfolding c coalesce_loop_step[OF v(2)] by simp
    from Cons.IH[OF this keys Cons.prems(3) group_ok_flush[OF Cons.prems(4) dg]]
    show ?thesis by simp
  next
    case False
    with Cons.prems(1) have "coalesce_loop hi t cs co ?grp (Some key) = Inr (co', grp', lk')"
      unfolding c coalesce_loop_step[OF v(2)] by simp
    from Cons.IH[OF this keys Cons.prems(3,4) dg] show ?thesis .
  qed
qed

lemma coalesce_loop_last_key:
  "coalesce_loop hi t cs co grp lk = Inr (co', grp', lk') \<Longrightarrow> fst ` set cs \<subseteq> fst ` set hi \<Longrightarrow>
   (cs = [] \<and> lk' = lk \<and> grp' = grp) \<or> (\<exists>key \<in> fst ` set cs. lk' = Some key)"
proof (induction cs arbitrary: co grp lk)
  case Nil
  then show ?case by simp
next
  case (Cons c cs)
  obtain key count where c: "c = (key, count)" by (cases c)
  with Cons.prems have "key \<in> fst ` set hi" by auto
  then obtain v where v: "getitem hi key = Inr v" by (rule getitem_in_keys)
  from Cons.prems have keys: "fst ` set cs \<subseteq> fst ` set hi" by auto
  let ?grp = "grp @ [v @ [key]]"
  show ?case
  proof (cases "int (sum_list (map length ?grp)) \<ge> t")
    case True
    with Cons.prems(1) have "coalesce_loop hi t cs (flush_after_loop key ?grp co) [] (Some key)
        = Inr (co', grp', lk')" unfolding c coalesce_loop_step[OF v] by simp
    from Cons.IH[OF this keys] show ?thesis unfolding c by auto
  next
    case False
    with Cons.prems(1) have "coalesce_loop hi t cs co ?grp (Some key) = Inr (co', grp', lk')"
      unfolding c coalesce_loop_step[OF v] by simp
    from Cons.IH[OF this keys] show ?thesis unfolding c by auto
  qed
qed

lemma in_names_of: "x \<in> set (names_of d) \<longleftrightarrow> (\<exists>k vs. (k, vs) \<in> set d \<and> (x = k \<or> x \<in> set vs))"
  unfolding set_names_of by auto

lemma names_of_closures:
  assumes "distinct (map fst hi)"
  shows "(\<Union>k \<in> fst ` set hi. closure_names hi k) = set (names_of hi)"
proof (intro equalityI subsetI)
  fix x assume "x \<in> (\<Union>k \<in> fst ` set hi. closure_names hi k)"
  then obtain k v where kv: "(k, v) \<in> set hi" and x: "x \<in> closure_names hi k" by auto
  from map_of_is_SomeI[OF assms kv] x have "x = k \<or> x \<in> set v"
    by (simp add: closure_names_def getitem_default_def)
  with kv show "x \<in> set (names_of hi)" unfolding in_names_of by blast
next
  fix x assume "x \<in> set (names_of hi)"
  then obtain k v where kv: "(k, v) \<in> set hi" and x: "x = k \<or> x \<in> set v"
    unfolding in_names_of by blast
  from map_of_is_SomeI[OF assms kv] x have "x \<in> closure_names hi k"
    by (simp add: closure_names_def getitem_default_def)
  moreover from kv have "k \<in> fst ` set hi" by force
  ultimately show "x \<in> (\<Union>k \<in> fst ` set hi. closure_names hi k)" by blast
qed

lemma coalesce_names_covered:
  assumes "distinct (map fst hi_level_builds)"
  shows "\<exists>out. coalesce hi_level_builds targetnum = Inr out \<and>
           distinct (map fst out) \<and>
           set (names_of out) = set (names_of hi_level_builds) \<and>
           (group_ok hi_level_builds \<longrightarrow> group_ok out)"
proof -
  let ?cs = "sort_key snd (map (\<lambda>(k, v). (k, length v)) hi_level_builds)"
  have "map fst (map (\<lambda>(k, v). (k, length v)) hi_level_builds) = map fst hi_level_builds"
    by (induction hi_level_builds) auto
  then have "fst ` set (map (\<lambda>(k, v). (k, length v)) hi_level_builds) = fst ` set hi_level_builds"
    by (metis set_map)
  then have keys: "fst ` set ?cs = fst ` set hi_level_builds" by simp
  then have sub: "fst ` set ?cs \<subseteq> fst ` set hi_level_builds" by simp
  from coalesce_loop_total[OF sub, of targetnum "[]" "[]" None] obtain s where
    "coalesce_loop hi_level_builds targetnum ?cs [] [] None = Inr s" ..
  then obtain co grp lk where
    r: "coalesce_loop hi_level_builds targetnum ?cs [] [] None = Inr (co, grp, lk)"
    by (cases s) simp
  from coalesce_loop_names[OF r sub]
  have n: "set (names_of co) \<union> \<Union>(set ` set grp) = set (names_of hi_level_builds)"
    unfolding keys names_of_closures[OF assms] by (simp add: names_of_def)
  from coalesce_loop_keys[OF r sub] have d: "distinct (map fst co)" by simp
  have g: "group_ok co \<and> list_all distinct grp" if "group_ok hi_level_builds"
    using coalesce_loop_group_ok[OF r sub that] by (simp add: group_ok_def)
  show ?thesis
  proof (cases "grp = []")
    case True
    with r have "coalesce hi_level_builds targetnum = Inr co" by (simp add: coalesce_def)
    with True n d g show ?thesis by auto
  next
    case False
    with coalesce_loop_last_key[OF r sub] obtain key where
      lk: "lk = Some key" and k: "key \<in> fst ` set hi_level_builds" unfolding keys by auto
    from k obtain v where "(key, v) \<in> set hi_level_builds" by auto
    then have kin: "key \<in> set (names_of hi_level_builds)" unfolding in_names_of by blast
    let ?out = "flush_after_loop key grp co"
    from r False lk have "coalesce hi_level_builds targetnum = Inr ?out" by (simp add: coalesce_def)
    moreover have "set (names_of ?out) = set (names_of hi_level_builds)"
      using n kin False by (auto simp: names_flush)
    moreover have "distinct (map fst ?out)" using d by (rule distinct_keys_flush)
    moreover have "group_ok hi_level_builds \<longrightarrow> group_ok ?out"
      using g by (auto intro!: group_ok_flush)
    ultimately show ?thesis by blast
  qed
qed

lemma setitem_absent: "key \<notin> fst ` set co \<Longrightarrow> setitem co key v = co @ [(key, v)]"
  by (induction co key v rule: setitem.induct) auto

lemma setitem_last: "key \<notin> fst ` set co \<Longrightarrow> setitem (co @ [(key, w)]) key v = co @ [(key, v)]"
  by (induction co) auto

lemma map_of_absent: "key \<notin> fst ` set co \<Longrightarrow> map_of co key = None"
  by (simp add: map_of_eq_None_iff)

lemma getitem_default_absent: "key \<notin> fst ` set co \<Longrightarrow> getitem_default co key = []"
  by (simp add: getitem_default_def map_of_absent)

lemma getitem_default_last:
  "key \<notin> fst ` set co \<Longrightarrow> getitem_default (co @ [(key, w)]) key = w"
  by (simp add: getitem_default_def map_of_absent map_add_def)

lemma merge_group_last:
  "key \<notin> fst ` set co \<Longrightarrow>
   merge_group key g (co @ [(key, w)]) = co @ [(key, merge_step key g w)]"
  by (simp add: merge_group_def merge_step_def getitem_default_last setitem_last)

lemma merge_group_absent:
  "key \<notin> fst ` set co \<Longrightarrow> merge_group key g co = co @ [(key, merge_step key g [])]"
  by (simp add: merge_group_def merge_step_def getitem_default_absent setitem_absent)

lemma merged_Cons: "merged key (g # grp) acc = merged key grp (merge_step key g acc)"
  by (simp add: merged_def)

lemma fold_merge_group_last:
  "key \<notin> fst ` set co \<Longrightarrow>
   fold (merge_group key) grp (co @ [(key, w)]) = co @ [(key, merged key grp w)]"
proof (induction grp arbitrary: w)
  case Nil
  then show ?case by (simp add: merged_def)
next
  case (Cons g grp)
  then show ?case by (simp add: merge_group_last merged_Cons)
qed

lemma flush_absent:
  assumes "key \<notin> fst ` set co" "grp \<noteq> []"
  shows "flush_after_loop key grp co = co @ [(key, merged key grp [])]"
proof -
  from assms(2) obtain g gs where grp: "grp = g # gs" by (cases grp) auto
  show ?thesis unfolding flush_after_loop_def grp
    by (simp add: merge_group_absent[OF assms(1)] fold_merge_group_last[OF assms(1)] merged_Cons)
qed

lemma merged_distinct:
  "distinct acc \<Longrightarrow> key \<notin> set acc \<Longrightarrow> distinct (concat grp) \<Longrightarrow>
   set acc \<inter> set (concat grp) = {} \<Longrightarrow>
   distinct (merged key grp acc) \<and> key \<notin> set (merged key grp acc) \<and>
   set (merged key grp acc) = set acc \<union> (set (concat grp) - {key})"
proof (induction grp arbitrary: acc)
  case Nil
  then show ?case by (simp add: merged_def)
next
  case (Cons g grp)
  let ?acc = "merge_step key g acc"
  have a: "?acc = acc @ filter (\<lambda>gi. gi \<notin> set acc \<and> gi \<noteq> key) g" by (simp add: merge_step_def)
  from Cons.prems have dg: "distinct g" "distinct (concat grp)" "set g \<inter> set (concat grp) = {}"
    "set acc \<inter> set g = {}" "set acc \<inter> set (concat grp) = {}" by auto
  have 1: "distinct ?acc" unfolding a using Cons.prems(1) dg(1,4) by auto
  have 2: "key \<notin> set ?acc" unfolding a using Cons.prems(2) by auto
  have s: "set ?acc = set acc \<union> (set g - {key})" unfolding a using dg(4) by auto
  have 3: "set ?acc \<inter> set (concat grp) = {}" unfolding s using dg(3,5) by auto
  from Cons.IH[OF 1 2 dg(2) 3] show ?case unfolding merged_Cons s by auto
qed

lemma names_of_append: "names_of (a @ b) = names_of a @ names_of b"
  by (simp add: names_of_def)

lemma keys_in_names: "fst ` set co \<subseteq> set (names_of co)"
proof
  fix k assume "k \<in> fst ` set co"
  then obtain vs where "(k, vs) \<in> set co" by auto
  then show "k \<in> set (names_of co)" unfolding in_names_of by blast
qed

lemma flush_distinct:
  assumes d: "distinct (names_of co @ concat grp)" and k: "key \<in> set (concat grp)"
  shows "distinct (names_of (flush_after_loop key grp co))"
proof -
  from k have ne: "grp \<noteq> []" by auto
  from d k have "key \<notin> set (names_of co)" by auto
  with keys_in_names have absent: "key \<notin> fst ` set co" by blast
  from d have "distinct (concat grp)" by simp
  from merged_distinct[of "[]" key grp, OF _ _ this]
  have m: "distinct (merged key grp [])" "key \<notin> set (merged key grp [])"
    "set (merged key grp []) = set (concat grp) - {key}" by auto
  have "names_of (flush_after_loop key grp co) = names_of co @ key # merged key grp []"
    unfolding flush_absent[OF absent ne] by (simp add: names_of_def)
  moreover have "distinct (names_of co @ key # merged key grp [])"
    using d m \<open>key \<notin> set (names_of co)\<close> by auto
  ultimately show ?thesis by simp
qed

lemma names_of_Cons: "names_of ((k, v) # d) = k # v @ names_of d"
  by (simp add: names_of_def)

lemma entry_in_names: "(k, v) \<in> set d \<Longrightarrow> set (k # v) \<subseteq> set (names_of d)"
proof
  fix x assume "(k, v) \<in> set d" "x \<in> set (k # v)"
  then have "(k, v) \<in> set d \<and> (x = k \<or> x \<in> set v)" by auto
  then show "x \<in> set (names_of d)" unfolding in_names_of by blast
qed

lemma distinct_names_keys: "distinct (names_of d) \<Longrightarrow> distinct (map fst d)"
proof (induction d)
  case Nil
  then show ?case by simp
next
  case (Cons a d)
  obtain k v where a: "a = (k, v)" by (cases a)
  from Cons.prems have "k \<notin> set (names_of d)" "distinct (names_of d)"
    unfolding a names_of_Cons by auto
  with keys_in_names[of d] Cons.IH show ?case unfolding a by auto
qed

lemma distinct_names_entry: "distinct (names_of d) \<Longrightarrow> (k, v) \<in> set d \<Longrightarrow> distinct (k # v)"
proof (induction d)
  case Nil
  then show ?case by simp
next
  case (Cons a d)
  obtain k' v' where a: "a = (k', v')" by (cases a)
  from Cons.prems(1) have d: "distinct (k' # v')" "distinct (names_of d)"
    unfolding a names_of_Cons by auto
  from Cons.prems(2) show ?case unfolding a using d Cons.IH by auto
qed

lemma distinct_names_disjoint:
  "distinct (names_of d) \<Longrightarrow> (k, v) \<in> set d \<Longrightarrow> (k', v') \<in> set d \<Longrightarrow> k \<noteq> k' \<Longrightarrow>
   set (k # v) \<inter> set (k' # v') = {}"
proof (induction d)
  case Nil
  then show ?case by simp
next
  case (Cons a d)
  obtain ka va where a: "a = (ka, va)" by (cases a)
  from Cons.prems(1) have d: "set (ka # va) \<inter> set (names_of d) = {}" "distinct (names_of d)"
    unfolding a names_of_Cons by auto
  consider (both) "(k, v) \<in> set d" "(k', v') \<in> set d"
    | (first) "(k, v) = (ka, va)" "(k', v') \<in> set d"
    | (second) "(k, v) \<in> set d" "(k', v') = (ka, va)"
    using Cons.prems(2,3,4) unfolding a by auto
  then show ?case
  proof cases
    case both
    with Cons.IH[OF d(2)] Cons.prems(4) show ?thesis by blast
  next
    case first
    from entry_in_names[OF first(2)] d(1) first(1) show ?thesis by blast
  next
    case second
    from entry_in_names[OF second(1)] d(1) second(2) show ?thesis by blast
  qed
qed

lemma closure_names_entry:
  assumes "distinct (map fst hi)" "(k, v) \<in> set hi"
  shows "closure_names hi k = set (k # v)" "getitem hi k = Inr v" "getitem_default hi k = v"
  using map_of_is_SomeI[OF assms]
  by (simp_all add: closure_names_def getitem_default_def getitem_def)

lemma coalesce_loop_distinct:
  "coalesce_loop hi t cs co grp lk = Inr (co', grp', lk') \<Longrightarrow>
   fst ` set cs \<subseteq> fst ` set hi \<Longrightarrow> distinct (names_of hi) \<Longrightarrow> distinct (map fst cs) \<Longrightarrow>
   distinct (names_of co @ concat grp) \<Longrightarrow>
   set (names_of co @ concat grp) \<inter> (\<Union>k \<in> fst ` set cs. closure_names hi k) = {} \<Longrightarrow>
   (grp \<noteq> [] \<longrightarrow> (\<exists>k. lk = Some k \<and> k \<in> set (concat grp))) \<Longrightarrow>
   distinct (names_of co' @ concat grp') \<and>
   (grp' \<noteq> [] \<longrightarrow> (\<exists>k. lk' = Some k \<and> k \<in> set (concat grp')))"
proof (induction cs arbitrary: co grp lk)
  case Nil
  then show ?case by simp
next
  case (Cons c cs)
  obtain key count where c: "c = (key, count)" by (cases c)
  note dk = distinct_names_keys[OF Cons.prems(3)]
  from Cons.prems(2) obtain v where kv: "(key, v) \<in> set hi" unfolding c by auto
  note e = closure_names_entry[OF dk kv]
  let ?G = "v @ [key]"
  let ?grp = "grp @ [?G]"
  have keys: "fst ` set cs \<subseteq> fst ` set hi" and dcs: "distinct (map fst cs)"
    and knew: "key \<notin> fst ` set cs"
    using Cons.prems(2,4) unfolding c by auto
  have dG: "distinct ?G" using distinct_names_entry[OF Cons.prems(3) kv] by auto
  have "set (names_of co @ concat grp) \<inter> closure_names hi key = {}"
    using Cons.prems(6) unfolding c by auto
  then have Gnew: "set (names_of co @ concat grp) \<inter> set ?G = {}" unfolding e(1) by auto
  have d2: "distinct (names_of co @ concat ?grp)"
    using Cons.prems(5) dG Gnew by auto
  have Gdisj: "set ?G \<inter> (\<Union>k \<in> fst ` set cs. closure_names hi k) = {}"
  proof -
    have "set ?G \<inter> closure_names hi k = {}" if "k \<in> fst ` set cs" for k
    proof -
      from that keys obtain w where kw: "(k, w) \<in> set hi" by auto
      from that knew have "key \<noteq> k" by auto
      from distinct_names_disjoint[OF Cons.prems(3) kv kw this]
      show ?thesis unfolding closure_names_entry(1)[OF dk kw] by auto
    qed
    then show ?thesis by blast
  qed
  have old: "set (names_of co @ concat grp) \<inter> (\<Union>k \<in> fst ` set cs. closure_names hi k) = {}"
    using Cons.prems(6) unfolding c by auto
  have disj2: "set (names_of co @ concat ?grp) \<inter> (\<Union>k \<in> fst ` set cs. closure_names hi k) = {}"
    using old Gdisj by auto
  have kin: "key \<in> set (concat ?grp)" by simp
  show ?case
  proof (cases "int (sum_list (map length ?grp)) \<ge> t")
    case True
    let ?co = "flush_after_loop key ?grp co"
    from True Cons.prems(1) have r: "coalesce_loop hi t cs ?co [] (Some key) = Inr (co', grp', lk')"
      unfolding c coalesce_loop_step[OF e(2)] by simp
    have dco: "distinct (names_of ?co @ concat [])"
      using flush_distinct[OF d2 kin] by simp
    have "set (names_of ?co) = set (names_of co @ concat ?grp)"
      unfolding names_flush by auto
    with disj2 have "set (names_of ?co @ concat []) \<inter> (\<Union>k \<in> fst ` set cs. closure_names hi k) = {}"
      by simp
    from Cons.IH[OF r keys Cons.prems(3) dcs dco this] show ?thesis by simp
  next
    case False
    from False Cons.prems(1) have r: "coalesce_loop hi t cs co ?grp (Some key) = Inr (co', grp', lk')"
      unfolding c coalesce_loop_step[OF e(2)] by simp
    from Cons.IH[OF r keys Cons.prems(3) dcs d2 disj2] kin show ?thesis by blast
  qed
qed

lemma distinct_map_sort_key:
  assumes "distinct (map f xs)"
  shows "distinct (map f (sort_key g xs))"
proof -
  from assms have "distinct xs" "inj_on f (set xs)" by (simp_all add: distinct_map)
  then have "distinct (sort_key g xs)" "inj_on f (set (sort_key g xs))" by simp_all
  then show ?thesis by (simp add: distinct_map)
qed

lemma distinct_sorted_keys:
  assumes "distinct (map fst hi)"
  shows "distinct (map fst (sort_key snd (map (\<lambda>(k, v). (k, length v)) hi)))"
proof -
  have m: "map fst (map (\<lambda>(k, v). (k, length v)) hi) = map fst hi" by (induction hi) auto
  from assms have "distinct (map fst (map (\<lambda>(k, v). (k, length v)) hi))" unfolding m .
  then show ?thesis by (rule distinct_map_sort_key)
qed

lemma distinct_count_list: "distinct xs \<Longrightarrow> x \<in> set xs \<Longrightarrow> count_list xs x = 1"
  by (induction xs) auto

lemma distinct_partition:
  assumes "distinct (names_of out)" "set (names_of out) = set (names_of hi)"
  shows "set_partition_of hi out"
  using assms by (auto simp: set_partition_of_def list_all_iff distinct_count_list)

lemma coalesce_distinct:
  assumes d: "distinct (names_of hi)" and c: "coalesce hi t = Inr out"
  shows "distinct (names_of out)"
proof -
  let ?cs = "sort_key snd (map (\<lambda>(k, v). (k, length v)) hi)"
  note dk = distinct_names_keys[OF d]
  have "map fst (map (\<lambda>(k, v). (k, length v)) hi) = map fst hi" by (induction hi) auto
  then have "fst ` set (map (\<lambda>(k, v). (k, length v)) hi) = fst ` set hi" by (metis set_map)
  then have sub: "fst ` set ?cs \<subseteq> fst ` set hi" by simp
  from coalesce_loop_total[OF sub, of t "[]" "[]" None] obtain s where
    "coalesce_loop hi t ?cs [] [] None = Inr s" ..
  then obtain co grp lk where r: "coalesce_loop hi t ?cs [] [] None = Inr (co, grp, lk)"
    by (cases s) simp
  have "distinct (names_of [] @ concat [])" "set (names_of [] @ concat []) \<inter>
      (\<Union>k \<in> fst ` set ?cs. closure_names hi k) = {}"
    "([] :: name list list) \<noteq> [] \<longrightarrow> (\<exists>k. None = Some k \<and> k \<in> set (concat []))"
    by (simp_all add: names_of_def)
  from coalesce_loop_distinct[OF r sub d distinct_sorted_keys[OF dk] this]
  have dd: "distinct (names_of co @ concat grp)"
    and lk: "grp \<noteq> [] \<longrightarrow> (\<exists>k. lk = Some k \<and> k \<in> set (concat grp))" by simp_all
  show ?thesis
  proof (cases "grp = []")
    case True
    with r c have "out = co" by (simp add: coalesce_def)
    with dd True show ?thesis by simp
  next
    case False
    with lk obtain key where k: "lk = Some key" "key \<in> set (concat grp)" by auto
    with r c False have "out = flush_after_loop key grp co" by (simp add: coalesce_def)
    with flush_distinct[OF dd k(2)] show ?thesis by simp
  qed
qed

section \<open>The executor: lemmas\<close>

text \<open>The program's own \<open>make_pkg\<close> returns or is interrupted; it never raises
  \<open>CalledProcessError\<close>.\<close>

lemma make_pkg_not_called_process_error:
  "make_pkg run_tool dry extra_args package \<noteq> Inl CalledProcessError"
  by (auto simp: make_pkg_def PopenWrapper_def Let_def split: tool_run.splits)

lemma make_pkg_cases:
  "(\<exists>t. make_pkg run_tool dry extra_args package = Inr t) \<or>
   make_pkg run_tool dry extra_args package = Inl KeyboardInterrupt"
  by (auto simp: make_pkg_def PopenWrapper_def Let_def split: tool_run.splits)

text \<open>So with the program's own \<open>make_pkg\<close> the \<open>failed\<close> set stays empty.\<close>

lemma make_deps_loop_nothing_failed:
  "make_deps_loop (make_pkg run_tool dry extra_args) g order rest [] btimes = Inr r \<Longrightarrow>
   r = FailedSet [] \<or> (\<exists>succeeded t. r = Report succeeded [] t)"
proof (induction rest arbitrary: btimes)
  case Nil
  then show ?case by auto
next
  case (Cons pkg rest)
  from Cons.prems obtain package where p: "node g pkg = Some package"
    by (cases "node g pkg") auto
  have ex: "\<not> list_ex (\<lambda>p. p \<in> set []) order" by (simp add: list_ex_iff)
  from make_pkg_cases[of run_tool dry extra_args package] show ?case
  proof
    assume "\<exists>t. make_pkg run_tool dry extra_args package = Inr t"
    then obtain t where "make_pkg run_tool dry extra_args package = Inr t" ..
    with Cons.prems p ex have "make_deps_loop (make_pkg run_tool dry extra_args) g order rest []
        (set_build_time btimes pkg t) = Inr r" by simp
    then show ?thesis by (rule Cons.IH)
  next
    assume "make_pkg run_tool dry extra_args package = Inl KeyboardInterrupt"
    with Cons.prems p ex show ?thesis by simp
  qed
qed

lemma make_deps_nothing_failed:
  assumes "make_deps run_tool graph package dry extra_args level autofail = Some (Inr r)"
  shows "r = FailedSet [] \<or> (\<exists>succeeded t. r = Report succeeded [] t)"
proof -
  from assms obtain g order where
    "make_deps_run (make_pkg run_tool dry extra_args) g order = Inr r"
    by (auto simp: make_deps_def make_deps_with_def split: option.splits sum.splits)
  then show ?thesis unfolding make_deps_run_def by (rule make_deps_loop_nothing_failed)
qed

text \<open>A failed package keeps the value \<open>None\<close> in \<open>build_times\<close>.\<close>

lemma stats_loop_None: "(p, None) \<in> set t \<Longrightarrow> \<exists>e. stats_loop t = Inl e"
  by (induction t rule: stats_loop.induct) (auto split: option.splits)

lemma set_build_time_other:
  "q \<noteq> pkg \<Longrightarrow> (q, v) \<in> set t \<Longrightarrow> (q, v) \<in> set (set_build_time t pkg w)"
  by (induction t pkg w rule: set_build_time.induct) auto

lemma make_deps_loop_failed_untimed:
  "make_deps_loop mk g order rest failed t = Inr (Report s f t') \<Longrightarrow>
   distinct rest \<Longrightarrow> set rest \<subseteq> set order \<Longrightarrow> set failed \<subseteq> set order \<Longrightarrow>
   (\<forall>p \<in> set failed \<union> set rest. (p, None) \<in> set t) \<Longrightarrow>
   (\<forall>p \<in> set f. (p, None) \<in> set t')"
proof (induction rest arbitrary: failed t)
  case Nil
  then show ?case by simp
next
  case (Cons pkg rest)
  from Cons.prems(1) obtain package where p: "node g pkg = Some package"
    by (cases "node g pkg") auto
  from Cons.prems have d: "distinct rest" and sub: "set rest \<subseteq> set order"
    and pin: "pkg \<in> set order" and pnot: "pkg \<notin> set rest"
    and pt: "(pkg, None) \<in> set t" by auto
  have fail_step: "\<forall>p \<in> set f. (p, None) \<in> set t'"
    if "make_deps_loop mk g order rest (set_add pkg failed) t = Inr (Report s f t')"
  proof (rule Cons.IH[OF that d sub])
    show "set (set_add pkg failed) \<subseteq> set order"
      using Cons.prems(4) pin by (auto simp: set_add_def)
    show "\<forall>p \<in> set (set_add pkg failed) \<union> set rest. (p, None) \<in> set t"
      using Cons.prems(5) by (auto simp: set_add_def)
  qed
  show ?case
  proof (cases "list_ex (\<lambda>p. p \<in> set failed) order")
    case True
    with Cons.prems(1) p show ?thesis by (intro fail_step) simp
  next
    case False
    with Cons.prems(4) have empty: "failed = []"
      by (cases failed) (auto simp: list_ex_iff)
    show ?thesis
    proof (cases "mk package")
      case (Inr bt)
      with Cons.prems(1) p False have
        "make_deps_loop mk g order rest failed (set_build_time t pkg bt) = Inr (Report s f t')"
        by simp
      moreover have "\<forall>p \<in> set failed \<union> set rest. (p, None) \<in> set (set_build_time t pkg bt)"
        using Cons.prems(5) pnot empty by (auto intro!: set_build_time_other)
      ultimately show ?thesis using Cons.IH[OF _ d sub Cons.prems(4)] by blast
    next
      case (Inl e)
      show ?thesis
      proof (cases "e = CalledProcessError")
        case True
        with Cons.prems(1) p False Inl show ?thesis by (intro fail_step) simp
      next
        case False
        with Cons.prems(1) p \<open>\<not> list_ex (\<lambda>p. p \<in> set failed) order\<close> Inl show ?thesis
          by (cases e) auto
      qed
    qed
  qed
qed

text \<open>A run that reports a failed package ends in an uncaught exception of the statistics
  loop: the exit status is 1, whatever the number of failed packages.\<close>

lemma failed_report_exits_1:
  assumes "make_deps_run mk g order = Inr (Report s f t)" "distinct order" "f \<noteq> []"
  shows "\<exists>e. summarize (Inr (Report s f t)) = Uncaught e"
proof -
  have "\<forall>p \<in> set f. (p, None) \<in> set t"
    using assms(1,2) unfolding make_deps_run_def
    by (rule make_deps_loop_failed_untimed) auto
  with assms(3) obtain p where "(p, None) \<in> set t" by (cases f) auto
  from stats_loop_None[OF this] show ?thesis by (auto simp: summarize_def)
qed

section \<open>Splitting: lemmas\<close>

lemma reach_unfold:
  assumes "s \<in> set (nodes g)"
  shows "reach g s = (\<Union>s' \<in> set (adj g s). insert s' (reach g s'))"
proof (intro equalityI subsetI)
  fix v assume "v \<in> reach g s"
  then have "(s, v) \<in> (edges g)\<^sup>+" by (simp add: reach_def)
  then obtain s' where e: "(s, s') \<in> edges g" and r: "(s', v) \<in> (edges g)\<^sup>*"
    by (auto dest: tranclD)
  from r have "v = s' \<or> (s', v) \<in> (edges g)\<^sup>+" by (auto simp: rtrancl_eq_or_trancl)
  with e show "v \<in> (\<Union>s' \<in> set (adj g s). insert s' (reach g s'))"
    by (auto simp: reach_def edges_iff)
next
  fix v assume "v \<in> (\<Union>s' \<in> set (adj g s). insert s' (reach g s'))"
  then obtain s' where s': "s' \<in> set (adj g s)" and v: "v = s' \<or> (s', v) \<in> (edges g)\<^sup>+"
    by (auto simp: reach_def)
  from s' assms have e: "(s, s') \<in> edges g" by (simp add: edges_iff)
  from v show "v \<in> reach g s"
  proof
    assume "v = s'"
    with e show ?thesis by (auto simp: reach_def)
  next
    assume "(s', v) \<in> (edges g)\<^sup>+"
    with e show ?thesis unfolding reach_def by (auto intro: trancl_into_trancl2)
  qed
qed

lemma reach_nodes: "wf_digraph g \<Longrightarrow> reach g s \<subseteq> set (nodes g)"
proof
  fix v assume wf: "wf_digraph g" and "v \<in> reach g s"
  then have "(s, v) \<in> (edges g)\<^sup>+" by (simp add: reach_def)
  then obtain u where "(u, v) \<in> edges g" by (auto dest: tranclD2)
  with wf show "v \<in> set (nodes g)" by (auto simp: edges_iff wf_digraph_def list_all_iff)
qed

lemma set_update_self: "set_update xs xs = xs"
proof -
  have "set ys \<subseteq> set xs \<Longrightarrow> fold set_add ys xs = xs" for ys
    by (induction ys) (auto simp: set_add_def)
  then show ?thesis by (simp add: set_update_def)
qed

lemma successors_for_correct:
  assumes IH: "\<And>s ns. s \<in> set (nodes g) \<Longrightarrow> rank s < d \<Longrightarrow> distinct ns \<Longrightarrow>
      \<exists>r. successors_iter d g s ns = Some (Inr r) \<and> distinct r \<and> set r = set ns \<union> reach g s"
  shows "set ss \<subseteq> set (nodes g) \<Longrightarrow> \<forall>s \<in> set ss. rank s < d \<Longrightarrow> distinct ns \<Longrightarrow>
     \<exists>r. successors_for d g ss ns = Some (Inr r) \<and> distinct r \<and>
         set r = set ns \<union> (\<Union>s \<in> set ss. insert s (reach g s))"
proof (induction ss arbitrary: ns)
  case Nil
  then show ?case by simp
next
  case (Cons s ss)
  have "distinct (set_add s ns)" using Cons.prems(3) by (rule distinct_set_add)
  with IH[of s "set_add s ns"] Cons.prems(1,2) obtain r where
    r: "successors_iter d g s (set_add s ns) = Some (Inr r)" "distinct r"
       "set r = set (set_add s ns) \<union> reach g s" by auto
  from Cons.IH[OF _ _ r(2)] Cons.prems(1,2) obtain r' where
    r': "successors_for d g ss r = Some (Inr r')" "distinct r'"
        "set r' = set r \<union> (\<Union>s \<in> set ss. insert s (reach g s))" by auto
  have "successors_for d g (s # ss) ns = Some (Inr r')"
    using r(1) r'(1) by (simp add: set_update_self)
  moreover have "set r' = set ns \<union> (\<Union>s \<in> set (s # ss). insert s (reach g s))"
    unfolding r'(3) r(3) set_set_add by auto
  ultimately show ?case using r'(2) by blast
qed

lemma successors_iter_correct:
  assumes wf: "wf_digraph g" and rank: "\<And>u v. (u, v) \<in> edges g \<Longrightarrow> rank v < (rank u :: nat)"
  shows "s \<in> set (nodes g) \<Longrightarrow> rank s < d \<Longrightarrow> distinct ns \<Longrightarrow>
     \<exists>r. successors_iter d g s ns = Some (Inr r) \<and> distinct r \<and> set r = set ns \<union> reach g s"
proof (induction d arbitrary: s ns)
  case 0
  then show ?case by simp
next
  case (Suc d)
  have sub: "set (adj g s) \<subseteq> set (nodes g)" using wf_digraph_closed[OF wf] Suc.prems(1) by blast
  have "\<forall>s' \<in> set (adj g s). rank s' < d"
  proof
    fix s' assume "s' \<in> set (adj g s)"
    with Suc.prems(1) have "(s, s') \<in> edges g" by (simp add: edges_iff)
    from rank[OF this] Suc.prems(2) show "rank s' < d" by simp
  qed
  from successors_for_correct[of g rank d, OF Suc.IH sub this Suc.prems(3)] obtain r where
    r: "successors_for d g (adj g s) ns = Some (Inr r)" "distinct r"
       "set r = set ns \<union> (\<Union>s' \<in> set (adj g s). insert s' (reach g s'))" by blast
  have "successors_iter (Suc d) g s ns = Some (Inr r)"
    using r(1) Suc.prems(1) by (simp add: successors_def)
  with r(2,3) show ?case unfolding reach_unfold[OF Suc.prems(1)] by blast
qed

lemma topo_positions_ok:
  "set succ \<subseteq> set toposort \<Longrightarrow> \<exists>po. topo_positions toposort succ = Inr po \<and> map fst po = succ"
proof (induction succ)
  case Nil
  then show ?case by simp
next
  case (Cons s succ)
  then obtain po where "topo_positions toposort succ = Inr po" "map fst po = succ" by auto
  with Cons.prems show ?case by (simp add: index_def)
qed

lemma set_setitem: "set (setitem d k v) \<subseteq> insert (k, v) (set d)"
  by (induction d k v rule: setitem.induct) auto

lemma closure_ok_setitem:
  "closure_ok g hb \<Longrightarrow> distinct vs \<Longrightarrow> set vs = reach g k \<Longrightarrow> closure_ok g (setitem hb k vs)"
  using set_setitem[of hb k vs] unfolding closure_ok_def by blast

lemma set_map_sort_key: "set (map f (sort_key h xs)) = set (map f xs)"
  by simp

lemma hi_level_loop_correct:
  assumes wf: "wf_digraph g" and rank: "\<And>u v. (u, v) \<in> edges g \<Longrightarrow> rank v < (rank u :: nat)"
    and small: "\<forall>s \<in> set toposort. rank s < d" and all: "set toposort = set (nodes g)"
  shows "set rest \<subseteq> set toposort \<Longrightarrow> closure_ok g hb \<Longrightarrow>
     \<exists>hb'. hi_level_loop d g toposort rest covered hb = Some (Inr hb') \<and> closure_ok g hb'"
proof (induction rest arbitrary: covered hb)
  case Nil
  then show ?case by simp
next
  case (Cons hi rest)
  from Cons.prems(1) have rest: "set rest \<subseteq> set toposort" and hi: "hi \<in> set toposort" by auto
  show ?case
  proof (cases "hi \<in> fst ` set covered")
    case True
    with Cons.IH[OF rest Cons.prems(2), of covered] show ?thesis by simp
  next
    case False
    from hi all small have "hi \<in> set (nodes g)" "rank hi < d" by auto
    from successors_iter_correct[of g rank hi d "[]", OF wf rank this] obtain succ where
      s: "successors_iter d g hi [] = Some (Inr succ)" "distinct succ" "set succ = reach g hi"
      by auto
    from s(3) reach_nodes[OF wf, of hi] all have "set succ \<subseteq> set toposort" by simp
    from topo_positions_ok[OF this] obtain po where
      po: "topo_positions toposort succ = Inr po" "map fst po = succ" by blast
    let ?vs = "map fst (sort_key (\<lambda>x. - int (snd x)) po)"
    have "distinct ?vs" using s(2) po(2) by (intro distinct_map_sort_key) simp
    moreover have "set ?vs = reach g hi" unfolding set_map_sort_key po(2) s(3) ..
    ultimately have ok: "closure_ok g (setitem hb hi ?vs)"
      using Cons.prems(2) by (intro closure_ok_setitem)
    from Cons.IH[OF rest ok] obtain hb' where
      "hi_level_loop d g toposort rest
         (increment (fold (\<lambda>s c. increment c s) succ covered) hi) (setitem hb hi ?vs) = Some (Inr hb')"
      "closure_ok g hb'" by blast
    with False s(1) po(1) show ?thesis by simp
  qed
qed

lemma reach_no_successors: "adj g s = [] \<Longrightarrow> reach g s = {}"
proof -
  assume a: "adj g s = []"
  have "(s, v) \<notin> (edges g)\<^sup>+" for v
  proof
    assume "(s, v) \<in> (edges g)\<^sup>+"
    then obtain s' where "(s, s') \<in> edges g" by (auto dest: tranclD)
    with a show False by (simp add: edges_iff)
  qed
  then show ?thesis by (simp add: reach_def)
qed

section \<open>The planner: claims\<close>

lemma before_iff: "before order a b \<longleftrightarrow> a \<in> set order \<and> b \<in> set order \<and> pos order a < pos order b"
  by (auto simp: before_def index_def)

lemma acyclic_if_sorted:
  assumes "wf_digraph g" "topological_sort g True = Some (Inr order)"
  shows "acyclic (edges g)"
  using topological_sort_reverse[OF assms(1)] assms(2) by auto

lemma graph_app_wf: "wf_digraph graph_app"
  by code_simp

lemma graph_app_sorted: "topological_sort graph_app True = Some (Inr [''liba'', ''libb'', ''app''])"
  by code_simp

text \<open>
  What the planner does for every input. For a well-formed acyclic dependency graph (and
  target names that are nodes of it when the expansion depth is positive) \<open>build_order\<close>
  returns the temporary graph and an order of exactly its nodes, each once, in which every
  edge package\<rightarrow>dependency of the temporary graph has the dependency at a strictly smaller
  index than the package. When the expansion depth is not positive or all packages are
  requested, the temporary graph is the induced subgraph, so the order respects every edge
  of the dependency graph between two planned nodes.
\<close>

lemma build_order_sorts_temporary_graph:
  assumes "wf_digraph graph" and "acyclic (edges graph)"
    and "\<forall>ps. packages = Some ps \<and> level > 0 \<longrightarrow> set ps \<subseteq> set (nodes graph)"
  shows "\<exists>tmp order. build_order graph packages level = Some (Inr (tmp, order)) \<and>
           distinct order \<and> set order = set (nodes tmp) \<and> edges tmp \<subseteq> edges graph \<and>
           (\<forall>(package, dependency) \<in> edges tmp. before order dependency package) \<and>
           (level \<le> 0 \<or> packages = None \<longrightarrow>
              (\<forall>(package, dependency) \<in> edges graph.
                 package \<in> set order \<and> dependency \<in> set order \<longrightarrow> before order dependency package))"
proof -
  from plan_subgraph_total[OF assms(1,3)] obtain tmp where
    plan: "plan_subgraph graph packages level = Inr tmp" by blast
  from plan_subgraph_inv[OF assms(1) plan] have sub: "edges tmp \<subseteq> edges graph"
    by (simp add: sub_inv_def)
  with assms(2) have ac: "acyclic (edges tmp)" by (rule acyclic_subset)
  from build_order_result[OF assms(1) plan] obtain t r where
    t: "nodes t = nodes tmp" "adj t = adj tmp"
    and b: "build_order graph packages level = Some (map_sum id (Pair t) r)"
    and r: "case r of Inl e \<Rightarrow> e = NetworkXUnfeasible \<and> \<not> acyclic (edges tmp)
            | Inr order \<Rightarrow> acyclic (edges tmp) \<and> distinct order \<and> set order = set (nodes tmp) \<and>
                (\<forall>(u, v) \<in> edges tmp. pos order v < pos order u)" by blast
  from r ac obtain order where o: "r = Inr order" "distinct order" "set order = set (nodes tmp)"
    "\<forall>(u, v) \<in> edges tmp. pos order v < pos order u" by (cases r) auto
  have e: "edges t = edges tmp" by (rule edges_cong[OF t])
  from plan_subgraph_inv[OF assms(1) plan] have "wf_digraph tmp" by (simp add: sub_inv_def)
  then have "\<And>u v. (u, v) \<in> edges tmp \<Longrightarrow> u \<in> set (nodes tmp) \<and> v \<in> set (nodes tmp)"
    by (auto simp: edges_iff wf_digraph_def list_all_iff)
  then have bef: "\<forall>(package, dependency) \<in> edges tmp. before order dependency package"
    using o(3,4) by (auto simp: before_iff)
  have "\<forall>(package, dependency) \<in> edges graph.
          package \<in> set order \<and> dependency \<in> set order \<longrightarrow> before order dependency package"
    if "level \<le> 0 \<or> packages = None"
    using plan_subgraph_induced[OF assms(1) that plan] bef o(3) by auto
  with b o bef sub t e show ?thesis by auto
qed

text \<open>If the temporary graph itself has a cycle, the topological sort raises.\<close>

lemma build_order_raises_on_cyclic_temporary_graph:
  assumes "wf_digraph graph" and "plan_subgraph graph packages level = Inr tmp"
    and "\<not> acyclic (edges tmp)"
  shows "build_order graph packages level = Some (Inl NetworkXUnfeasible)"
proof -
  from build_order_result[OF assms(1,2)] obtain t r where
    b: "build_order graph packages level = Some (map_sum id (Pair t) r)"
    and r: "case r of Inl e \<Rightarrow> e = NetworkXUnfeasible \<and> \<not> acyclic (edges tmp)
            | Inr order \<Rightarrow> acyclic (edges tmp) \<and> distinct order \<and> set order = set (nodes tmp) \<and>
                (\<forall>(u, v) \<in> edges tmp. pos order v < pos order u)" by blast
  from r assms(3) have "r = Inl NetworkXUnfeasible" by (cases r) auto
  with b show ?thesis by simp
qed

text \<open>
  C1. Dependencies before dependents is what the planner does on the path without
  expansion (the lemma above) and what its name and docstring promise; for a positive
  expansion depth the code misses it. Lines 244-246 copy into the temporary graph the
  edges that leave the nodes of the current frontier; the nodes reached in the last round
  are added without the edges that leave them, so the sort does not see a dependency
  between two of them. On \<open>graph_app\<close> (acyclic; \<open>app\<close> requires \<open>liba\<close> and \<open>libb\<close>, \<open>libb\<close>
  requires \<open>liba\<close>; all three buildable) with target \<open>app\<close> and depth 1 the planned nodes
  are \<open>app\<close>, \<open>liba\<close>, \<open>libb\<close> and the returned order is \<open>[libb, liba, app]\<close>: the package
  \<open>libb\<close> stands before its dependency \<open>liba\<close>. The same three packages planned without
  expansion, and the same target with depth 2, give \<open>[liba, libb, app]\<close>.
\<close>

theorem build_order_last_round_edge:
  "wf_digraph graph_app \<and> acyclic (edges graph_app) \<and>
   (''libb'', ''liba'') \<in> edges graph_app \<and>
   buildable graph_app ''libb'' \<and> buildable graph_app ''liba'' \<and>
   map_option (map_sum id (nodes \<circ> fst)) (build_order graph_app (Some [''app'']) 1)
     = Some (Inr [''app'', ''liba'', ''libb'']) \<and>
   map_option (map_sum id snd) (build_order graph_app (Some [''app'']) 1)
     = Some (Inr [''libb'', ''liba'', ''app'']) \<and>
   \<not> before [''libb'', ''liba'', ''app''] ''liba'' ''libb'' \<and>
   map_option (map_sum id snd) (build_order graph_app (Some [''app'', ''liba'', ''libb'']) 0)
     = Some (Inr [''liba'', ''libb'', ''app'']) \<and>
   map_option (map_sum id snd) (build_order graph_app (Some [''app'']) 2)
     = Some (Inr [''liba'', ''libb'', ''app''])"
proof -
  have "acyclic (edges graph_app)"
    by (rule acyclic_if_sorted[OF graph_app_wf graph_app_sorted])
  moreover have "wf_digraph graph_app \<and>
   (''libb'', ''liba'') \<in> edges graph_app \<and>
   buildable graph_app ''libb'' \<and> buildable graph_app ''liba'' \<and>
   map_option (map_sum id (nodes \<circ> fst)) (build_order graph_app (Some [''app'']) 1)
     = Some (Inr [''app'', ''liba'', ''libb'']) \<and>
   map_option (map_sum id snd) (build_order graph_app (Some [''app'']) 1)
     = Some (Inr [''libb'', ''liba'', ''app'']) \<and>
   \<not> before [''libb'', ''liba'', ''app''] ''liba'' ''libb'' \<and>
   map_option (map_sum id snd) (build_order graph_app (Some [''app'', ''liba'', ''libb'']) 0)
     = Some (Inr [''liba'', ''libb'', ''app'']) \<and>
   map_option (map_sum id snd) (build_order graph_app (Some [''app'']) 2)
     = Some (Inr [''liba'', ''libb'', ''app''])"
    by code_simp
  ultimately show ?thesis by simp
qed

text \<open>
  C5. A cycle among the planned packages is reported when the temporary graph holds its
  edges (the lemma above): without expansion, and when the expansion goes one round past
  the cycle. It is missed when the cycle closes through an edge that leaves a node reached
  in the last round, by the same omission as in C1. On \<open>graph_cyclic\<close> (\<open>a\<close> and \<open>b\<close> require
  each other, \<open>c\<close> requires \<open>a\<close>) with target \<open>c\<close> and depth 2 the planned nodes are \<open>c\<close>,
  \<open>a\<close>, \<open>b\<close>, the edge from \<open>b\<close> to \<open>a\<close> is not copied, and the call returns the order
  \<open>[b, a, c]\<close> instead of raising. The same target with depth 3, and the same three packages
  planned without expansion, raise \<open>NetworkXUnfeasible\<close>.
\<close>

theorem build_order_cycle_undetected:
  "wf_digraph graph_cyclic \<and>
   (''a'', ''b'') \<in> edges graph_cyclic \<and> (''b'', ''a'') \<in> edges graph_cyclic \<and>
   map_option (map_sum id (nodes \<circ> fst)) (build_order graph_cyclic (Some [''c'']) 2)
     = Some (Inr [''c'', ''a'', ''b'']) \<and>
   map_option (map_sum id (\<lambda>r. (''b'', ''a'') \<in> edges (fst r))) (build_order graph_cyclic (Some [''c'']) 2)
     = Some (Inr False) \<and>
   map_option (map_sum id snd) (build_order graph_cyclic (Some [''c'']) 2)
     = Some (Inr [''b'', ''a'', ''c'']) \<and>
   map_option (map_sum id snd) (build_order graph_cyclic (Some [''c'']) 3)
     = Some (Inl NetworkXUnfeasible) \<and>
   map_option (map_sum id snd) (build_order graph_cyclic (Some [''c'', ''a'', ''b'']) 0)
     = Some (Inl NetworkXUnfeasible)"
  by code_simp

section \<open>The coalescer: claims\<close>

text \<open>
  C2, as amended. For every closure mapping (a dictionary: its keys are distinct) and every
  target size, \<open>coalesce\<close> returns a mapping with distinct keys that holds exactly the names
  of the input: every name that occurs as an input key or in an input closure list occurs
  in the output, as a key or in a value list, and no other name does. When no name occurs
  twice in the input (not in two closures, not twice in one closure, not as a key and in a
  closure), the output is a set partition of the input names: each of them occurs exactly
  once in the output, as exactly one key or in exactly one value list, never both, and no
  name is repeated anywhere in the output. When only each closure list by itself repeats
  no name and does not contain its own key, the same holds of each output list.
\<close>

theorem coalesce_partition:
  assumes "distinct (map fst hi_level_builds)"
  shows "\<exists>out. coalesce hi_level_builds targetnum = Inr out \<and>
           distinct (map fst out) \<and>
           set (names_of out) = set (names_of hi_level_builds) \<and>
           (group_ok hi_level_builds \<longrightarrow> group_ok out) \<and>
           (distinct (names_of hi_level_builds) \<longrightarrow> set_partition_of hi_level_builds out)"
proof -
  from coalesce_names_covered[OF assms, of targetnum] obtain out where
    out: "coalesce hi_level_builds targetnum = Inr out" "distinct (map fst out)"
      "set (names_of out) = set (names_of hi_level_builds)"
      "group_ok hi_level_builds \<longrightarrow> group_ok out" by blast
  have "set_partition_of hi_level_builds out" if "distinct (names_of hi_level_builds)"
    using coalesce_distinct[OF that out(1)] out(3) by (rule distinct_partition)
  with out show ?thesis by blast
qed

text \<open>The theorem at the mapping of the scenario, target size 5.\<close>

theorem coalesce_partition_witness:
  "distinct (map fst closures_ab) \<and> group_ok closures_ab \<and> distinct (names_of closures_ab) \<and>
   (\<exists>out. coalesce closures_ab 5 = Inr out \<and> distinct (map fst out) \<and>
      set (names_of out) = set (names_of closures_ab) \<and> group_ok out \<and>
      set_partition_of closures_ab out)"
proof -
  have d: "distinct (map fst closures_ab)" by (simp add: closures_ab_def)
  have g: "group_ok closures_ab" by (simp add: closures_ab_def group_ok_def)
  have n: "distinct (names_of closures_ab)" by (simp add: closures_ab_def names_of_def)
  from coalesce_partition[OF d, of 5] d g n show ?thesis by blast
qed

text \<open>
  C2 as stated fails: the lists are de-duplicated only against the list of the current key
  (\<open>gi not in coalesced[key]\<close>, lines 194 and 198), so a name shared by two closures that are
  flushed under different keys is stored under both. For the closures of two packages with
  a common dependency \<open>c\<close> and target size 1, each package is flushed on its own and \<open>c\<close>
  occurs twice in the output, whatever the iteration order of the input.
\<close>

theorem coalesce_partition_counterexample:
  "coalesce closures_shared 1 = Inr [(''A'', [''c'']), (''B'', [''c''])] \<and>
   count_list (names_of [(''A'', [''c'']), (''B'', [''c''])]) ''c'' = 2 \<and>
   \<not> set_partition_of closures_shared [(''A'', [''c'']), (''B'', [''c''])] \<and>
   coalesce (rev closures_shared) 1 = Inr [(''B'', [''c'']), (''A'', [''c''])] \<and>
   \<not> set_partition_of (rev closures_shared) [(''B'', [''c'']), (''A'', [''c''])]"
  by code_simp

text \<open>A name shared between a key and another closure is stored both as a key and as a
  member: a closure of \<open>A\<close> that contains the key \<open>B\<close>, target size 1.\<close>

lemma key_stored_as_member:
  "coalesce [(''A'', [''B'']), (''B'', [])] 1 = Inr [(''B'', []), (''A'', [''B''])]"
  by code_simp

text \<open>
  C7, as amended. For the scenario the keys are processed in ascending closure-size order
  (\<open>B\<close>, then \<open>A\<close>), the batch does not reach the target at \<open>B\<close> and reaches it at \<open>A\<close>, and the
  batch is flushed under \<open>A\<close>; the result is the single group \<open>{"A": ["b1", "B", "a1", "a2"]}\<close>:
  the members are merged in batch order, \<open>B\<close>'s closure and \<open>B\<close> first, then \<open>A\<close>'s closure
  without \<open>A\<close>. Both iteration orders of the input give this result.
\<close>

theorem coalesce_scenario:
  "sort_key snd (map (\<lambda>(k, v). (k, length v)) closures_ab) = [(''B'', 1), (''A'', 2)] \<and>
   coalesce_loop closures_ab 5 [(''B'', 1)] [] [] None = Inr ([], [[''b1'', ''B'']], Some ''B'') \<and>
   coalesce closures_ab 5 = Inr [(''A'', [''b1'', ''B'', ''a1'', ''a2''])] \<and>
   coalesce (rev closures_ab) 5 = Inr [(''A'', [''b1'', ''B'', ''a1'', ''a2''])]"
  by code_simp

text \<open>C7 as stated fails: the list stored under \<open>A\<close> is not \<open>["a1", "a2", "b1", "B"]\<close>.\<close>

theorem coalesce_scenario_counterexample:
  "coalesce closures_ab 5 \<noteq> Inr [(''A'', [''a1'', ''a2'', ''b1'', ''B''])] \<and>
   coalesce (rev closures_ab) 5 \<noteq> Inr [(''A'', [''a1'', ''a2'', ''b1'', ''B''])]"
  by code_simp

section \<open>The executor and the dirty-node query: claims\<close>

text \<open>
  The autofail policy of the loop, with the outcome of the call of \<open>make_pkg\<close> (line 277)
  as the parameter \<open>mk\<close>. Once that call has raised \<open>CalledProcessError\<close> for the first
  package \<open>a\<close> of the order \<open>[a, b, c]\<close>, the test of line 270 holds for every later package:
  \<open>b\<close> and \<open>c\<close> are added to \<open>failed\<close> whatever they declare as dependencies.
\<close>

lemma autofail_after_first_failure:
  assumes "node g a = Some package" and "mk package = Inl CalledProcessError"
    and "buildable g b" and "buildable g c"
  shows "\<exists>failed btimes. make_deps_run mk g [a, b, c] = Inr (Report [] failed btimes) \<and>
           a \<in> set failed \<and> b \<in> set failed \<and> c \<in> set failed"
  using assms by (auto simp: make_deps_run_def buildable_def set_add_def)

lemma autofail_graph_three:
  "make_deps_with (fails_for ''recipes/A'') graph_three None 0 =
     Some (Inr (Report [] [''A'', ''B'', ''C''] [(''A'', None), (''B'', None), (''C'', None)]))"
  by code_simp

text \<open>
  C3. The loop means to fail every package after a failed build (the lemma above), but the
  program never records a failed build (see C4), so nothing is failed automatically. On
  \<open>graph_three\<close>, where \<open>B\<close> and \<open>C\<close> declare no dependency, the order is \<open>[A, B, C]\<close>; when the
  build tool exits with status 1 for \<open>A\<close> and with status 0 for \<open>B\<close> and \<open>C\<close>, \<open>make_deps\<close> builds
  \<open>B\<close> and \<open>C\<close> and reports all three packages as succeeded: the failed list is empty.
\<close>

theorem failed_build_not_propagated:
  "map_option (map_sum id snd) (build_order graph_three None 0) = Some (Inr [''A'', ''B'', ''C'']) \<and>
   make_deps (tool_fails_at ''recipes/A'') graph_three None False [] 0 True =
     Some (Inr (Report [''A'', ''B'', ''C''] []
       [(''A'', Some (measured 1)), (''B'', Some (measured 0)), (''C'', Some (measured 0))])) \<and>
   returncode (measured 1) = Some 1"
  by code_simp

text \<open>
  C4. The program means to record a failed build (lines 281-283, and the message of line
  299), but its monitor never signals one: \<open>PopenWrapper\<close> stores the exit status and
  returns, and \<open>make_pkg\<close> hands the wrapper back as the build time. When the build tool
  exits with status 1 for every package of \<open>graph_three\<close>, \<open>make_deps\<close> reports all three
  packages as succeeded, with the status 1 in their statistics, and an empty failed list.
\<close>

theorem nonzero_exit_reported_succeeded:
  "make_deps (tool_exit 1) graph_three None False [] 0 True =
     Some (Inr (Report [''A'', ''B'', ''C''] []
       [(''A'', Some (measured 1)), (''B'', Some (measured 1)), (''C'', Some (measured 1))])) \<and>
   returncode (measured 1) = Some 1"
  by code_simp

text \<open>
  C6. On an interrupt, line 280 returns the \<open>failed\<close> set alone, not the triple of line 285
  that the caller unpacks (line 518). When the build of \<open>B\<close>, the second package of
  \<open>graph_three\<close>, is interrupted, \<open>make_deps\<close> returns the empty set: the succeeded package
  \<open>A\<close> and its statistics are not in what is returned, and the main program ends with the
  \<open>ValueError\<close> of the unpacking.
\<close>

theorem interrupt_returns_failed_set:
  "make_deps (tool_interrupt_at ''recipes/B'') graph_three None False [] 0 True =
     Some (Inr (FailedSet [])) \<and>
   main_build (tool_interrupt_at ''recipes/B'') graph_three None False [] 0 True =
     Some (Uncaught ValueError)"
  by code_simp

text \<open>
  C9. The program ends with \<open>sys.exit(len(fail))\<close> only if the statistics loop of lines
  530-533 gets through, and the loop reads \<open>i.rss\<close> of every value of \<open>times\<close>, which is \<open>None\<close>
  for every package of a dry run (and for every failed package). A dry run over
  \<open>graph_three\<close> has no failed package and ends with an uncaught \<open>AttributeError\<close>: exit
  status 1, not 0.
\<close>

theorem dry_run_exit_status:
  "make_deps (tool_exit 0) graph_three None True [] 0 True =
     Some (Inr (Report [''A'', ''B'', ''C''] [] [(''A'', None), (''B'', None), (''C'', None)])) \<and>
   main_build (tool_exit 0) graph_three None True [] 0 True = Some (Uncaught AttributeError) \<and>
   exit_status (Uncaught AttributeError) = 1"
  by code_simp

text \<open>
  C10. For every graph the dirty-node query returns the empty set: it asks each node name,
  a string, for an attribute \<open>dirty\<close>, which strings do not have, and never looks at the
  attribute dictionary of the node.
\<close>

theorem dirty_empty: "dirty graph = {}"
  by (simp add: dirty_def getattr_str_def str_attributes_def)

text \<open>The theorem at \<open>graph_ab\<close>, whose node \<open>liba\<close> was marked \<open>dirty=True\<close> by
  \<open>construct_graph\<close>.\<close>

theorem dirty_empty_witness:
  "map_option dirty_attr (node graph_ab ''liba'') = Some True \<and> dirty graph_ab = {}"
proof -
  have "map_option dirty_attr (node graph_ab ''liba'') = Some True" by code_simp
  with dirty_empty[of graph_ab] show ?thesis by simp
qed

section \<open>Splitting: claims\<close>

text \<open>
  C8. For every well-formed acyclic graph, and a recursion depth of at least the number
  of nodes, the loop of \<open>split_graph\<close> returns, and the closure it has stored for each
  representative holds exactly the nodes that are reachable from the representative along
  one or more successor edges, each once; a representative without outgoing edges has
  the empty list.
\<close>

theorem split_graph_closures:
  assumes "wf_digraph g" and "acyclic (edges g)" and "length (nodes g) \<le> depth"
  shows "\<exists>hi_level_builds. hi_level_closures depth g = Some (Inr hi_level_builds) \<and>
     (\<forall>(representative, closure) \<in> set hi_level_builds.
        distinct closure \<and> set closure = {v. (representative, v) \<in> (edges g)\<^sup>+} \<and>
        (adj g representative = [] \<longrightarrow> closure = []))"
proof -
  from topological_sort_reverse[OF assms(1)] obtain res where
    res: "topological_sort g True = Some res"
      "case res of
         Inl e \<Rightarrow> e = NetworkXUnfeasible \<and> \<not> acyclic (edges g)
       | Inr order \<Rightarrow> acyclic (edges g) \<and> distinct order \<and> set order = set (nodes g) \<and>
           (\<forall>(u, v) \<in> edges g. pos order v < pos order u)" by blast
  from res(2) assms(2) obtain order where o: "res = Inr order" by (cases res) auto
  from res o have t: "topological_sort g True = Some (Inr order)" and d: "distinct order"
    and n: "set order = set (nodes g)" and r: "\<forall>(u, v) \<in> edges g. pos order v < pos order u"
    by simp_all
  from t have "topo_for (adj g) (nodes g) {} {} [] = Some (Inr order)"
    by (auto simp: topological_sort_def split: option.splits sum.splits)
  then have f: "topological_sort g False = Some (Inr (rev order))"
    by (simp add: topological_sort_def)
  from assms(1) have "distinct (nodes g)" by (simp add: wf_digraph_def)
  with d n have "length order = length (nodes g)" by (metis distinct_card)
  with assms(3) have len: "length order \<le> depth" by simp
  have small: "\<forall>s \<in> set (rev order). pos order s < depth"
    using pos_nth len by fastforce
  have rank: "\<And>u v. (u, v) \<in> edges g \<Longrightarrow> pos order v < pos order u" using r by auto
  have "closure_ok g []" by (simp add: closure_ok_def)
  from hi_level_loop_correct[of g "pos order" "rev order" depth "rev order" "[]" "[]",
      OF assms(1) rank small _ subset_refl this] n obtain hb where
    hb: "hi_level_loop depth g (rev order) (rev order) [] [] = Some (Inr hb)" "closure_ok g hb"
    by auto
  from hb(1) f have "hi_level_closures depth g = Some (Inr hb)" by (simp add: hi_level_closures_def)
  moreover have "\<forall>(representative, closure) \<in> set hb.
        distinct closure \<and> set closure = {v. (representative, v) \<in> (edges g)\<^sup>+} \<and>
        (adj g representative = [] \<longrightarrow> closure = [])"
    using hb(2) reach_no_successors[of g] unfolding closure_ok_def reach_def by fastforce
  ultimately show ?thesis by blast
qed

text \<open>The theorem at \<open>graph_app\<close>, whose only representative is \<open>app\<close>.\<close>

theorem split_graph_closures_witness:
  "wf_digraph graph_app \<and> acyclic (edges graph_app) \<and> length (nodes graph_app) \<le> 3 \<and>
   hi_level_closures 3 graph_app = Some (Inr [(''app'', [''liba'', ''libb''])]) \<and>
   (\<exists>hi_level_builds. hi_level_closures 3 graph_app = Some (Inr hi_level_builds) \<and>
     (\<forall>(representative, closure) \<in> set hi_level_builds.
        distinct closure \<and> set closure = {v. (representative, v) \<in> (edges graph_app)\<^sup>+} \<and>
        (adj graph_app representative = [] \<longrightarrow> closure = [])))"
proof -
  have ac: "acyclic (edges graph_app)"
    by (rule acyclic_if_sorted[OF graph_app_wf graph_app_sorted])
  have l: "length (nodes graph_app) \<le> 3" by (simp add: graph_app_def)
  have v: "hi_level_closures 3 graph_app = Some (Inr [(''app'', [''liba'', ''libb''])])"
    by code_simp
  from split_graph_closures[OF graph_app_wf ac l] graph_app_wf ac l v show ?thesis by blast
qed

text \<open>Three packages without dependencies are three representatives with empty closures.\<close>

lemma split_graph_no_dependencies:
  "hi_level_closures 3 graph_three = Some (Inr [(''C'', []), (''B'', []), (''A'', [])])"
  by code_simp

text \<open>The closures of two packages with a common dependency share it, and with target
  size 1 \<open>split_graph\<close> returns them as they are: the mapping of the counterexample to C2.\<close>

lemma split_graph_shared:
  "hi_level_closures 3 graph_shared = Some (Inr [(''B'', [''c'']), (''A'', [''c''])]) \<and>
   split_graph 3 graph_shared 1 = Some (Inr [(''B'', [''c'']), (''A'', [''c''])])"
  by code_simp

end
